theory Spec2Isabelle
  imports Complex_Main
begin

text \<open>
  A shallow embedding of the concurrent queue \<^verbatim>\<open>queue.js\<close>: a single worker function,
  an adjustable concurrency limit, a completion callback. The module modelled is the one
  the test suite exercises, \<^verbatim>\<open>src/unnamed/part_000\<close>; \<^verbatim>\<open>part_001\<close> is the same text
  with the buffer called \<^verbatim>\<open>tasks\<close> instead of \<^verbatim>\<open>items\<close>. The earlier revision
  \<^verbatim>\<open>src/queue.js\<close> has the same \<^verbatim>\<open>work\<close>, \<^verbatim>\<open>add\<close>, \<^verbatim>\<open>clear\<close>, \<^verbatim>\<open>open\<close> and
  setters; its \<^verbatim>\<open>close\<close> differs and is modelled separately.
\<close>

section \<open>JavaScript values\<close>

text \<open>
  The queue stores and compares a handful of JavaScript values. A number is an IEEE double:
  a finite double denotes a rational, and the only operation the queue applies to the
  configured concurrency is the comparison \<^verbatim>\<open>running >= options.concurrency\<close>, which is
  the comparison of the denoted rationals, false whenever an operand is NaN.
  A function value is a reference: the module's own \<^verbatim>\<open>noop\<close> or a function of the caller.
  An object is the list of its own properties.
\<close>

datatype jsnum = Finite rat | NaN | PosInf | NegInf

datatype fnref = Noop | UserFn nat

datatype jsval =
    Undefined
  | Null
  | Boolean bool
  | Number jsnum
  | Str string
  | Function fnref
  | Object "(string \<times> jsval) list"

text \<open>Truthiness, as \<^verbatim>\<open>if (err)\<close> tests it.\<close>

fun truthy :: "jsval \<Rightarrow> bool" where
  "truthy Undefined = False"
| "truthy Null = False"
| "truthy (Boolean b) = b"
| "truthy (Number (Finite x)) = (x \<noteq> 0)"
| "truthy (Number NaN) = False"
| "truthy (Number PosInf) = True"
| "truthy (Number NegInf) = True"
| "truthy (Str s) = (s \<noteq> [])"
| "truthy (Function f) = True"
| "truthy (Object ps) = True"

text \<open>\<^verbatim>\<open>r >= c\<close> for the integer counter \<open>r\<close> and a number \<open>c\<close>.\<close>

fun js_ge :: "int \<Rightarrow> jsnum \<Rightarrow> bool" where
  "js_ge r (Finite c) = (c \<le> of_int r)"
| "js_ge r NaN = False"
| "js_ge r PosInf = False"
| "js_ge r NegInf = True"

text \<open>\<^verbatim>\<open>r <= c\<close>, the bound the specification states on the running count.\<close>

fun js_le :: "int \<Rightarrow> jsnum \<Rightarrow> bool" where
  "js_le r (Finite c) = (of_int r \<le> c)"
| "js_le r NaN = False"
| "js_le r PosInf = True"
| "js_le r NegInf = False"

text \<open>\<^verbatim>\<open>c <= 0\<close> for a number \<open>c\<close>.\<close>

fun nonpositive :: "jsnum \<Rightarrow> bool" where
  "nonpositive (Finite c) = (c \<le> 0)"
| "nonpositive NaN = False"
| "nonpositive PosInf = False"
| "nonpositive NegInf = True"

text \<open>A number with an integer value, or \<^verbatim>\<open>Infinity\<close>.\<close>

fun whole :: "jsnum \<Rightarrow> bool" where
  "whole (Finite c) = (c = of_int \<lfloor>c\<rfloor>)"
| "whole NaN = False"
| "whole PosInf = True"
| "whole NegInf = False"

section \<open>The state of one queue\<close>

text \<open>
  The closure variables of the constructor: \<^verbatim>\<open>options\<close> (three fields), \<^verbatim>\<open>isClosed\<close>,
  \<^verbatim>\<open>items\<close> and \<^verbatim>\<open>running\<close>. The counter \<open>running\<close> only ever moves by one from zero,
  where doubles are exact, so it is an integer.

  Three more fields record what the queue does to its surroundings:
  \<^item> \<open>ticks\<close>: how many \<^verbatim>\<open>process.nextTick(work)\<close> requests are scheduled and not yet run;
  \<^item> \<open>invoked\<close>: the calls \<^verbatim>\<open>options.worker(item, handler)\<close> made so far, in order, each
    with the worker function that was called and the item it received;
  \<^item> \<open>live\<close>: the positions in \<open>invoked\<close> of the calls whose completion handler has
    not been called yet;
  \<^item> \<open>called\<close>: the calls of \<^verbatim>\<open>options.callback\<close> made so far, in order, each with the
    callback function that was called and its argument list.
\<close>

record queue_state =
  concurrency :: jsnum
  worker :: fnref
  callback :: fnref
  isClosed :: bool
  items :: "jsval list"
  running :: int
  ticks :: nat
  invoked :: "(fnref \<times> jsval) list"
  live :: "nat list"
  called :: "(fnref \<times> jsval list) list"

definition init :: queue_state where
  "init = \<lparr> concurrency = Finite 10, worker = Noop, callback = Noop, isClosed = False,
            items = [], running = 0, ticks = 0, invoked = [], live = [], called = [] \<rparr>"

section \<open>The dispatch loop\<close>

text \<open>
  \<^verbatim>\<open>work()\<close>: return when running at full capacity or when there is nothing to process;
  otherwise count the item as running, take it off the head of \<^verbatim>\<open>items\<close> and call
  the worker with it and a fresh completion handler. The call of the worker is the last
  thing \<^verbatim>\<open>work\<close> does, so whatever the worker does synchronously happens after these
  updates.
\<close>

definition work :: "queue_state \<Rightarrow> queue_state" where
  "work q =
     (if js_ge (running q) (concurrency q) \<or> items q = [] then q
      else case items q of
        [] \<Rightarrow> q
      | item # rest \<Rightarrow>
          q\<lparr> running := running q + 1,
             items := rest,
             invoked := invoked q @ [(worker q, item)],
             live := live q @ [length (invoked q)] \<rparr>)"

text \<open>
  The completion handler \<^verbatim>\<open>function (err) { ... }\<close> that \<^verbatim>\<open>work\<close> passes to the worker.
\<close>

definition handler :: "jsval \<Rightarrow> queue_state \<Rightarrow> queue_state" where
  "handler err q =
     (if truthy err then
        q\<lparr> isClosed := True, items := [], called := called q @ [(callback q, [err])] \<rparr>
      else
        let q1 = q\<lparr> running := running q - 1 \<rparr> in
        if isClosed q1 \<and> items q1 = [] \<and> running q1 = 0
        then q1\<lparr> called := called q1 @ [(callback q1, [])] \<rparr>
        else work q1)"

section \<open>The public methods\<close>

text \<open>
  A method returns the queue itself (cascading) or a value. Methods that read
  \<^verbatim>\<open>arguments.length\<close> take the argument list.
\<close>

datatype ret = Queue | Value jsval

datatype js_error = TypeError

fun queue_worker :: "jsval list \<Rightarrow> queue_state \<Rightarrow> ret \<times> queue_state" where
  "queue_worker [] q = (Value (Function (worker q)), q)"
| "queue_worker (Function f # _) q = (Queue, q\<lparr> worker := f \<rparr>)"
| "queue_worker (_ # _) q = (Queue, q)"

fun queue_callback :: "jsval list \<Rightarrow> queue_state \<Rightarrow> ret \<times> queue_state" where
  "queue_callback [] q = (Value (Function (callback q)), q)"
| "queue_callback (Function f # _) q = (Queue, q\<lparr> callback := f \<rparr>)"
| "queue_callback (_ # _) q = (Queue, q)"

fun queue_concurrency :: "jsval list \<Rightarrow> queue_state \<Rightarrow> ret \<times> queue_state" where
  "queue_concurrency [] q = (Value (Number (concurrency q)), q)"
| "queue_concurrency (Number n # _) q = (Queue, q\<lparr> concurrency := n \<rparr>)"
| "queue_concurrency (_ # _) q = (Queue, q)"

definition queue_add :: "jsval \<Rightarrow> queue_state \<Rightarrow> ret \<times> queue_state" where
  "queue_add item q =
     (if \<not> isClosed q
      then (Queue, q\<lparr> items := items q @ [item], ticks := ticks q + 1 \<rparr>)
      else (Queue, q))"

definition queue_clear :: "queue_state \<Rightarrow> ret \<times> queue_state" where
  "queue_clear q = (Queue, q\<lparr> items := [] \<rparr>)"

definition queue_open :: "queue_state \<Rightarrow> ret \<times> queue_state" where
  "queue_open q = (Queue, q\<lparr> isClosed := False, ticks := ticks q + 1 \<rparr>)"

definition queue_close :: "queue_state \<Rightarrow> ret \<times> queue_state" where
  "queue_close q =
     (let q1 = q\<lparr> isClosed := True \<rparr> in
      if running q1 = 0 \<and> items q1 = []
      then (Queue, q1\<lparr> called := called q1 @ [(callback q1, [])] \<rparr>)
      else (Queue, q1))"

definition queue_isClosed :: "queue_state \<Rightarrow> ret \<times> queue_state" where
  "queue_isClosed q = (Value (Boolean (isClosed q)), q)"

text \<open>
  \<^verbatim>\<open>queue.options\<close>. As a getter it returns a shallow copy of \<^verbatim>\<open>options\<close>. As a setter
  it walks the keys of \<^verbatim>\<open>options\<close> in their order of creation and calls the setter of
  each key that the argument has as an own property. The test is the call
  \<^verbatim>\<open>newOptions.hasOwnProperty(optionKey)\<close>, made for the first key before any setter
  has run. It throws a TypeError on \<^verbatim>\<open>undefined\<close> and \<^verbatim>\<open>null\<close>, and on an object
  whose own property \<^verbatim>\<open>hasOwnProperty\<close> hides the built-in method with a value that is
  not a function. A primitive or a function has none of the three keys. Where the own
  property \<^verbatim>\<open>hasOwnProperty\<close> is a function of the caller's, that function is taken to
  answer as the built-in method does; whatever it answers, the call acts as it does on the
  object cut down to the keys it answers for.
\<close>

fun own_properties :: "jsval \<Rightarrow> js_error + (string \<times> jsval) list" where
  "own_properties Undefined = Inl TypeError"
| "own_properties Null = Inl TypeError"
| "own_properties (Object ps) =
     (case map_of ps ''hasOwnProperty'' of
        None \<Rightarrow> Inr ps
      | Some (Function f) \<Rightarrow> Inr ps
      | Some _ \<Rightarrow> Inl TypeError)"
| "own_properties _ = Inr []"

definition apply_option ::
  "(string \<times> jsval) list \<Rightarrow> string \<Rightarrow> (jsval list \<Rightarrow> queue_state \<Rightarrow> ret \<times> queue_state)
     \<Rightarrow> queue_state \<Rightarrow> queue_state" where
  "apply_option ps key setter q =
     (case map_of ps key of None \<Rightarrow> q | Some v \<Rightarrow> snd (setter [v] q))"

fun queue_options :: "jsval list \<Rightarrow> queue_state \<Rightarrow> js_error + ret \<times> queue_state" where
  "queue_options [] q =
     Inr (Value (Object [(''concurrency'', Number (concurrency q)),
                         (''worker'', Function (worker q)),
                         (''callback'', Function (callback q))]), q)"
| "queue_options (newOptions # _) q =
     (case own_properties newOptions of
        Inl e \<Rightarrow> Inl e
      | Inr ps \<Rightarrow>
          Inr (Queue,
               apply_option ps ''callback'' queue_callback
                 (apply_option ps ''worker'' queue_worker
                    (apply_option ps ''concurrency'' queue_concurrency q))))"

text \<open>The constructor \<^verbatim>\<open>module.exports = function (initialOptions)\<close>.\<close>

definition create :: "jsval list \<Rightarrow> js_error + queue_state" where
  "create args =
     (if args = [] then Inr init
      else case queue_options args init of Inl e \<Rightarrow> Inl e | Inr (r, q) \<Rightarrow> Inr q)"

text \<open>
  The earlier revision of the module, \<^verbatim>\<open>src/queue.js\<close>, keeps the flag in
  \<^verbatim>\<open>options.closed\<close>; its \<^verbatim>\<open>close\<close> only sets the flag.
\<close>

definition legacy_close :: "queue_state \<Rightarrow> ret \<times> queue_state" where
  "legacy_close q = (Queue, q\<lparr> isClosed := True \<rparr>)"

section \<open>Runs of a queue\<close>

text \<open>
  Everything that happens to a queue is one of: a call of a public method, the event loop
  running one scheduled \<^verbatim>\<open>work\<close>, or a worker calling the completion handler it was
  given. JavaScript runs them one at a time, and each method calls foreign code (the
  worker, the callback) only as its last action, so a run is a sequence of such events.

  \<open>Tick\<close> is possible only when a \<^verbatim>\<open>work\<close> is scheduled. \<open>Done i err\<close> is the handler
  of the \<open>i\<close>-th worker call being called with \<open>err\<close>; it is possible only once per call
  (each worker calls its handler exactly once), and never for a call of \<^verbatim>\<open>noop\<close>, which
  ignores its handler. A method call that throws leaves the queue as it was.
\<close>

datatype event =
    Add jsval
  | Clear
  | Open
  | Close
  | IsClosed
  | Worker "jsval list"
  | Callback "jsval list"
  | Concurrency "jsval list"
  | Options "jsval list"
  | Tick
  | Done nat jsval

fun step :: "event \<Rightarrow> queue_state \<Rightarrow> queue_state option" where
  "step (Add item) q = Some (snd (queue_add item q))"
| "step Clear q = Some (snd (queue_clear q))"
| "step Open q = Some (snd (queue_open q))"
| "step Close q = Some (snd (queue_close q))"
| "step IsClosed q = Some (snd (queue_isClosed q))"
| "step (Worker args) q = Some (snd (queue_worker args q))"
| "step (Callback args) q = Some (snd (queue_callback args q))"
| "step (Concurrency args) q = Some (snd (queue_concurrency args q))"
| "step (Options args) q =
     (case queue_options args q of Inl e \<Rightarrow> Some q | Inr (r, q') \<Rightarrow> Some q')"
| "step Tick q =
     (if ticks q = 0 then None else Some (work (q\<lparr> ticks := ticks q - 1 \<rparr>)))"
| "step (Done i err) q =
     (if i \<in> set (live q) \<and> i < length (invoked q) \<and> fst (invoked q ! i) \<noteq> Noop
      then Some (handler err (q\<lparr> live := remove1 i (live q) \<rparr>))
      else None)"

fun run :: "event list \<Rightarrow> queue_state \<Rightarrow> queue_state option" where
  "run [] q = Some q"
| "run (e # es) q = (case step e q of None \<Rightarrow> None | Some q' \<Rightarrow> run es q')"

text \<open>
  The state of a fresh queue after a run; the fresh queue itself when the run is not
  possible.
\<close>

definition after :: "event list \<Rightarrow> queue_state" where
  "after es = (case run es init of None \<Rightarrow> init | Some q \<Rightarrow> q)"

section \<open>Notions used to state the properties\<close>

text \<open>
  The callback is called with one argument, the error, when a worker reports an error,
  and with no argument when the queue has drained.
\<close>

definition aborts :: "queue_state \<Rightarrow> (fnref \<times> jsval list) list" where
  "aborts q = filter (\<lambda>c. snd c \<noteq> []) (called q)"

definition drains :: "queue_state \<Rightarrow> (fnref \<times> jsval list) list" where
  "drains q = filter (\<lambda>c. snd c = []) (called q)"

definition aborted :: "queue_state \<Rightarrow> bool" where
  "aborted q = (aborts q \<noteq> [])"

text \<open>
  The bookkeeping of \<^verbatim>\<open>running\<close>: it counts the worker calls whose handler is still to
  be called, and one more for every error reported, since the error branch of the handler
  returns before \<^verbatim>\<open>running -= 1\<close>.
\<close>

definition accounted :: "queue_state \<Rightarrow> bool" where
  "accounted q = (running q = int (length (live q)) + int (length (aborts q)))"

text \<open>The items that the worker has received so far, in the order of the calls.\<close>

definition received :: "queue_state \<Rightarrow> jsval list" where
  "received q = map snd (invoked q)"

text \<open>Two states that differ at most in the three options.\<close>

definition same_work :: "queue_state \<Rightarrow> queue_state \<Rightarrow> bool" where
  "same_work q q' = (isClosed q' = isClosed q \<and> items q' = items q \<and> running q' = running q
     \<and> ticks q' = ticks q \<and> invoked q' = invoked q \<and> live q' = live q \<and> called q' = called q)"

text \<open>The events that read or set options and do nothing else.\<close>

fun is_config :: "event \<Rightarrow> bool" where
  "is_config IsClosed = True"
| "is_config (Worker args) = True"
| "is_config (Callback args) = True"
| "is_config (Concurrency args) = True"
| "is_config (Options args) = True"
| "is_config _ = False"

text \<open>The number that an event stores in \<^verbatim>\<open>options.concurrency\<close>, if it stores one.\<close>

fun assigned :: "event \<Rightarrow> jsnum option" where
  "assigned (Concurrency (Number n # _)) = Some n"
| "assigned (Options (newOptions # _)) =
     (case own_properties newOptions of
        Inl e \<Rightarrow> None
      | Inr ps \<Rightarrow>
          (case map_of ps ''concurrency'' of Some (Number n) \<Rightarrow> Some n | _ \<Rightarrow> None))"
| "assigned _ = None"

text \<open>The errors that the workers report in a run, in order.\<close>

fun reported :: "event list \<Rightarrow> jsval list" where
  "reported [] = []"
| "reported (Done i err # es) = (if truthy err then err # reported es else reported es)"
| "reported (_ # es) = reported es"

text \<open>
  A run in which every number stored in \<^verbatim>\<open>options.concurrency\<close> has an integer value
  (or is \<^verbatim>\<open>Infinity\<close>) and is not below the running count at the moment it is stored.
\<close>

fun limits_kept :: "event list \<Rightarrow> queue_state \<Rightarrow> bool" where
  "limits_kept [] q = True"
| "limits_kept (e # es) q =
     ((case assigned e of None \<Rightarrow> True | Some n \<Rightarrow> whole n \<and> js_le (running q) n) \<and>
      (case step e q of None \<Rightarrow> True | Some q' \<Rightarrow> limits_kept es q'))"

definition bounded :: "queue_state \<Rightarrow> bool" where
  "bounded q = (whole (concurrency q) \<and> js_le (running q) (concurrency q))"

text \<open>An event that leaves \<^verbatim>\<open>options.concurrency\<close> alone or stores a number \<^verbatim>\<open><= 0\<close>.\<close>

definition keeps_nonpositive :: "event \<Rightarrow> bool" where
  "keeps_nonpositive e = (case assigned e of None \<Rightarrow> True | Some n \<Rightarrow> nonpositive n)"

text \<open>The drain condition: closed, nothing pending, nothing running.\<close>

definition idle :: "queue_state \<Rightarrow> bool" where
  "idle q = (isClosed q \<and> items q = [] \<and> running q = 0)"

text \<open>
  The calls of \<^verbatim>\<open>close()\<close> in a run that find nothing running and nothing pending: each
  of them calls the callback.
\<close>

fun idle_closes :: "event list \<Rightarrow> queue_state \<Rightarrow> nat" where
  "idle_closes [] q = 0"
| "idle_closes (e # es) q =
     (if e = Close \<and> running q = 0 \<and> items q = [] then 1 else 0)
     + (case step e q of None \<Rightarrow> 0 | Some q' \<Rightarrow> idle_closes es q')"

text \<open>
  An event that leaves \<^verbatim>\<open>options.concurrency\<close> alone or stores a limit under which the
  gate lets a worker start when none is running (a positive number or \<^verbatim>\<open>NaN\<close>).
\<close>

definition keeps_admitting :: "event \<Rightarrow> bool" where
  "keeps_admitting e = (case assigned e of None \<Rightarrow> True | Some n \<Rightarrow> \<not> js_ge 0 n)"

text \<open>
  Pending items are looked after: a dispatch attempt is scheduled or a worker is running,
  whose completion makes the next attempt.
\<close>

definition fed :: "queue_state \<Rightarrow> bool" where
  "fed q = (items q \<noteq> [] \<longrightarrow> 0 < ticks q \<or> live q \<noteq> [])"

text \<open>A queue that cannot drain: something is pending, or an error has been reported.\<close>

definition stuck :: "queue_state \<Rightarrow> bool" where
  "stuck q = (items q \<noteq> [] \<or> aborted q)"

text \<open>The items of the \<^verbatim>\<open>add\<close> calls of a run, in order.\<close>

fun adds :: "event list \<Rightarrow> jsval list" where
  "adds [] = []"
| "adds (Add item # es) = item # adds es"
| "adds (_ # es) = adds es"

text \<open>The events that throw pending items away: \<^verbatim>\<open>clear()\<close> and a reported error.\<close>

fun discards :: "event \<Rightarrow> bool" where
  "discards Clear = True"
| "discards (Done i err) = truthy err"
| "discards _ = False"

text \<open>
  The run of the test suite's worker, which calls \<^verbatim>\<open>done()\<close> at once: the caller sets
  the worker, adds the items and closes; the first scheduled \<^verbatim>\<open>work\<close> hands the first
  item over, and each completion hands over the next.
\<close>

definition finish :: "nat \<Rightarrow> nat \<Rightarrow> event list" where
  "finish k n = map (\<lambda>i. Done i Undefined) [k..<k + n]"

definition synchronous :: "nat \<Rightarrow> jsval list \<Rightarrow> event list" where
  "synchronous w xs =
     Worker [Function (UserFn w)] # map Add xs @ [Close, Tick] @ finish 0 (length xs)"

text \<open>The same run, followed by the scheduled attempts that are left over.\<close>

definition settled :: "nat \<Rightarrow> jsval list \<Rightarrow> event list" where
  "settled w xs = synchronous w xs @ replicate (length xs - 1) Tick"

section \<open>How the operations change the state\<close>

text \<open>
  The setters touch the options only; \<^verbatim>\<open>work\<close> and the handler leave the options
  alone; and the bookkeeping of the running count holds in every state of every run.
\<close>

subsection \<open>The setters touch the options only\<close>

lemma same_work_refl: "same_work q q"
  by (simp add: same_work_def)

lemma same_work_trans: "same_work a b \<Longrightarrow> same_work b c \<Longrightarrow> same_work a c"
  by (simp add: same_work_def)

lemma same_work_worker: "same_work q (snd (queue_worker args q))"
  by (cases "(args, q)" rule: queue_worker.cases) (simp_all add: same_work_def)

lemma same_work_callback: "same_work q (snd (queue_callback args q))"
  by (cases "(args, q)" rule: queue_callback.cases) (simp_all add: same_work_def)

lemma same_work_concurrency: "same_work q (snd (queue_concurrency args q))"
  by (cases "(args, q)" rule: queue_concurrency.cases) (simp_all add: same_work_def)

lemma same_work_apply_option:
  "(\<And>a s. same_work s (snd (f a s))) \<Longrightarrow> same_work q (apply_option ps k f q)"
  by (simp add: apply_option_def same_work_refl split: option.splits)

lemma same_work_options: "queue_options args q = Inr (r, q') \<Longrightarrow> same_work q q'"
proof (cases args)
  case Nil
  assume "queue_options args q = Inr (r, q')"
  with Nil show ?thesis by (simp add: same_work_refl)
next
  case (Cons v vs)
  assume a: "queue_options args q = Inr (r, q')"
  let ?q1 = "\<lambda>ps. apply_option ps ''concurrency'' queue_concurrency q"
  let ?q2 = "\<lambda>ps. apply_option ps ''worker'' queue_worker (?q1 ps)"
  from a Cons obtain ps where q': "q' = apply_option ps ''callback'' queue_callback (?q2 ps)"
    by (auto split: sum.splits)
  have "same_work q (?q1 ps)" by (rule same_work_apply_option) (rule same_work_concurrency)
  moreover have "same_work (?q1 ps) (?q2 ps)" by (rule same_work_apply_option) (rule same_work_worker)
  moreover have "same_work (?q2 ps) q'" unfolding q' by (rule same_work_apply_option) (rule same_work_callback)
  ultimately show ?thesis by (blast intro: same_work_trans)
qed

lemma conc_worker: "concurrency (snd (queue_worker args q)) = concurrency q"
  by (cases "(args, q)" rule: queue_worker.cases) simp_all

lemma conc_callback: "concurrency (snd (queue_callback args q)) = concurrency q"
  by (cases "(args, q)" rule: queue_callback.cases) simp_all

lemma conc_work: "concurrency (work q) = concurrency q"
  by (simp add: work_def split: list.splits)

lemma conc_handler: "concurrency (handler err q) = concurrency q"
  by (simp add: handler_def Let_def conc_work)

lemma conc_step:
  "step e q = Some q' \<Longrightarrow>
   concurrency q' = (case assigned e of None \<Rightarrow> concurrency q | Some n \<Rightarrow> n)"
proof (cases e)
  case (Concurrency args)
  assume "step e q = Some q'"
  with Concurrency show ?thesis
    by (cases "(args, q)" rule: queue_concurrency.cases) auto
next
  case (Options args)
  assume a: "step e q = Some q'"
  show ?thesis
  proof (cases args)
    case Nil
    with a Options show ?thesis by auto
  next
    case (Cons v vs)
    show ?thesis
    proof (cases "own_properties v")
      case (Inl err)
      with a Options Cons have "q' = q" by simp
      with Inl Options Cons show ?thesis by simp
    next
      case (Inr ps)
      with a Options Cons
      have q': "q' = apply_option ps ''callback'' queue_callback
                 (apply_option ps ''worker'' queue_worker
                    (apply_option ps ''concurrency'' queue_concurrency q))" by simp
      have c: "concurrency q' = concurrency (apply_option ps ''concurrency'' queue_concurrency q)"
        unfolding q' by (simp add: apply_option_def conc_worker conc_callback split: option.splits)
      from Inr Options Cons c show ?thesis
        by (auto simp: apply_option_def split: option.splits jsval.splits)
    qed
  qed
qed (auto simp: queue_add_def queue_clear_def queue_open_def queue_close_def queue_isClosed_def
     Let_def conc_worker conc_callback conc_work conc_handler split: if_splits)

subsection \<open>The bookkeeping of the running count\<close>

lemma accounted_same_work: "same_work q q' \<Longrightarrow> accounted q \<Longrightarrow> accounted q'"
  by (simp add: same_work_def accounted_def aborts_def)

lemma accounted_work: "accounted q \<Longrightarrow> accounted (work q)"
  by (simp add: work_def accounted_def aborts_def split: list.splits)

lemma length_remove1_live: "i \<in> set xs \<Longrightarrow> int (length (remove1 i xs)) = int (length xs) - 1"
proof -
  assume "i \<in> set xs"
  then have "0 < length xs" by (rule length_pos_if_in_set)
  moreover from \<open>i \<in> set xs\<close> have "length (remove1 i xs) = length xs - 1"
    by (simp add: length_remove1)
  ultimately show ?thesis by arith
qed

lemma accounted_handler:
  assumes "accounted q" "i \<in> set (live q)"
  shows "accounted (handler err (q\<lparr> live := remove1 i (live q) \<rparr>))"
proof (cases "truthy err")
  case True
  with assms show ?thesis
    by (simp add: handler_def accounted_def aborts_def length_remove1_live)
next
  case False
  let ?q1 = "q\<lparr> live := remove1 i (live q), running := running q - 1 \<rparr>"
  from assms have a1: "accounted ?q1"
    by (simp add: accounted_def aborts_def length_remove1_live)
  show ?thesis
  proof (cases "isClosed ?q1 \<and> items ?q1 = [] \<and> running ?q1 = 0")
    case True
    from a1 have "accounted (?q1\<lparr> called := called ?q1 @ [(callback ?q1, [])] \<rparr>)"
      by (simp add: accounted_def aborts_def)
    moreover from True False
    have "handler err (q\<lparr> live := remove1 i (live q) \<rparr>)
            = ?q1\<lparr> called := called ?q1 @ [(callback ?q1, [])] \<rparr>"
      by (simp add: handler_def Let_def)
    ultimately show ?thesis by simp
  next
    case nd: False
    from a1 have "accounted (work ?q1)" by (rule accounted_work)
    moreover from nd False
    have "handler err (q\<lparr> live := remove1 i (live q) \<rparr>) = work ?q1"
      by (auto simp: handler_def Let_def)
    ultimately show ?thesis by simp
  qed
qed

lemma accounted_step: "step e q = Some q' \<Longrightarrow> accounted q \<Longrightarrow> accounted q'"
proof (cases e)
  case (Options args)
  assume "step e q = Some q'" "accounted q"
  with Options show ?thesis
    by (auto split: sum.splits dest: same_work_options accounted_same_work)
next
  case Tick
  assume a: "step e q = Some q'" "accounted q"
  then have "accounted (q\<lparr> ticks := ticks q - 1 \<rparr>)" by (simp add: accounted_def aborts_def)
  then have "accounted (work (q\<lparr> ticks := ticks q - 1 \<rparr>))" by (rule accounted_work)
  with a Tick show ?thesis by (simp split: if_splits)
next
  case (Done i err)
  assume "step e q = Some q'" "accounted q"
  with Done show ?thesis by (auto split: if_splits intro: accounted_handler)
next
  case (Worker args)
  assume "step e q = Some q'" "accounted q"
  with Worker show ?thesis using same_work_worker [of q args] by (auto dest: accounted_same_work)
next
  case (Callback args)
  assume "step e q = Some q'" "accounted q"
  with Callback show ?thesis using same_work_callback [of q args] by (auto dest: accounted_same_work)
next
  case (Concurrency args)
  assume "step e q = Some q'" "accounted q"
  with Concurrency show ?thesis using same_work_concurrency [of q args] by (auto dest: accounted_same_work)
qed (auto simp: accounted_def aborts_def queue_add_def queue_clear_def queue_open_def
       queue_close_def queue_isClosed_def Let_def)

lemma accounted_run: "run es q = Some q' \<Longrightarrow> accounted q \<Longrightarrow> accounted q'"
proof (induction es arbitrary: q)
  case Nil
  then show ?case by simp
next
  case (Cons e es)
  then show ?case by (auto split: option.splits dest: accounted_step)
qed

lemma accounted_init: "accounted init"
  by (simp add: accounted_def aborts_def init_def)

subsection \<open>Runs and the constructor\<close>

lemma run_append:
  "run (es @ es') q = (case run es q of None \<Rightarrow> None | Some q1 \<Rightarrow> run es' q1)"
  by (induction es arbitrary: q) (auto split: option.splits)

text \<open>Constructing a queue with options is the fresh queue taking the options.\<close>

lemma create_is_run:
  "create args = Inr q \<Longrightarrow> run (if args = [] then [] else [Options args]) init = Some q"
  by (auto simp: create_def split: if_splits sum.splits)

subsection \<open>After an abort\<close>

lemma same_work_config: "is_config e \<Longrightarrow> step e q = Some q' \<Longrightarrow> same_work q q'"
proof (cases e)
  case (Options args)
  assume "step e q = Some q'"
  with Options show ?thesis
    by (auto split: sum.splits dest: same_work_options simp: same_work_refl)
next
  case (Worker args)
  assume "step e q = Some q'"
  with Worker show ?thesis using same_work_worker [of q args] by auto
next
  case (Callback args)
  assume "step e q = Some q'"
  with Callback show ?thesis using same_work_callback [of q args] by auto
next
  case (Concurrency args)
  assume "step e q = Some q'"
  with Concurrency show ?thesis using same_work_concurrency [of q args] by auto
next
  case IsClosed
  assume "step e q = Some q'"
  with IsClosed show ?thesis by (auto simp: queue_isClosed_def same_work_refl)
qed simp_all

lemma called_work: "called (work q) = called q"
  by (simp add: work_def split: list.splits)

lemma isClosed_work: "isClosed (work q) = isClosed q"
  by (simp add: work_def split: list.splits)

lemma accounted_nonneg: "accounted q \<Longrightarrow> 0 \<le> running q"
  by (simp add: accounted_def)

lemma accounted_aborted: "accounted q \<Longrightarrow> aborted q \<Longrightarrow> int (length (live q)) < running q"
  by (simp add: accounted_def aborted_def)

lemma handler_after_abort:
  assumes "accounted q" "aborted q" "i \<in> set (live q)"
  shows "aborted (handler err (q\<lparr> live := remove1 i (live q) \<rparr>)) \<and>
         map snd (called (handler err (q\<lparr> live := remove1 i (live q) \<rparr>)))
           = map snd (called q) @ (if truthy err then [ [err] ] else [])"
proof (cases "truthy err")
  case True
  with assms show ?thesis by (simp add: handler_def aborted_def aborts_def)
next
  case False
  from assms(1,2) have "int (length (live q)) < running q" by (rule accounted_aborted)
  moreover from assms(3) have "0 < length (live q)" by (rule length_pos_if_in_set)
  ultimately have "running q - 1 \<noteq> 0" by arith
  with False have "handler err (q\<lparr> live := remove1 i (live q) \<rparr>)
      = work (q\<lparr> live := remove1 i (live q), running := running q - 1 \<rparr>)"
    by (simp add: handler_def Let_def)
  with assms(2) False show ?thesis by (simp add: called_work aborted_def aborts_def)
qed

lemma step_after_abort:
  assumes "accounted q" "aborted q" "step e q = Some q'"
  shows "aborted q' \<and> map snd (called q') = map snd (called q) @ map (\<lambda>err. [err]) (reported [e])"
proof (cases "is_config e")
  case True
  then have "same_work q q'" using assms(3) by (rule same_work_config)
  moreover from True have "reported [e] = []" by (cases e) simp_all
  ultimately show ?thesis using assms(2) by (simp add: same_work_def aborted_def aborts_def)
next
  case False
  show ?thesis
  proof (cases e)
    case Close
    from assms(1,2) have "int (length (live q)) < running q" by (rule accounted_aborted)
    then have "running q \<noteq> 0" by simp
    with Close assms show ?thesis by (auto simp: queue_close_def Let_def aborted_def aborts_def)
  next
    case Tick
    with assms show ?thesis
      by (auto simp: called_work aborted_def aborts_def split: if_splits)
  next
    case (Done i err)
    with assms(3) have i: "i \<in> set (live q)"
      and q': "q' = handler err (q\<lparr> live := remove1 i (live q) \<rparr>)"
      by (auto split: if_splits)
    from handler_after_abort [OF assms(1,2) i, of err] Done q' show ?thesis by simp
  qed (use False assms in \<open>auto simp: queue_add_def queue_clear_def queue_open_def aborted_def aborts_def split: if_splits\<close>)
qed

lemma reported_append: "reported (es @ es') = reported es @ reported es'"
  by (induction es rule: reported.induct) simp_all

lemma run_after_abort:
  "accounted q \<Longrightarrow> aborted q \<Longrightarrow> run es q = Some q' \<Longrightarrow>
   map snd (called q') = map snd (called q) @ map (\<lambda>err. [err]) (reported es)"
proof (induction es arbitrary: q)
  case Nil
  then show ?case by simp
next
  case (Cons e es)
  from Cons.prems(3) obtain q1 where s: "step e q = Some q1" and r: "run es q1 = Some q'"
    by (auto split: option.splits)
  from Cons.prems(1) s have a1: "accounted q1" by (auto dest: accounted_step)
  from step_after_abort [OF Cons.prems(1,2) s]
  have b1: "aborted q1"
    and c1: "map snd (called q1) = map snd (called q) @ map (\<lambda>err. [err]) (reported [e])"
    by simp_all
  from Cons.IH [OF a1 b1 r] c1
  have "map snd (called q') = map snd (called q) @ map (\<lambda>err. [err]) (reported ([e] @ es))"
    unfolding reported_append by simp
  then show ?case by simp
qed

subsection \<open>The running count under a limit\<close>

lemma js_le_succ: "whole c \<Longrightarrow> \<not> js_ge r c \<Longrightarrow> js_le (r + 1) c"
proof (cases c)
  case (Finite x)
  assume "whole c" "\<not> js_ge r c"
  with Finite have x: "x = of_int \<lfloor>x\<rfloor>" and "of_int r < x" by simp_all
  then have "of_int r < (of_int \<lfloor>x\<rfloor> :: rat)" by simp
  then have "r < \<lfloor>x\<rfloor>" by (simp only: of_int_less_iff)
  then have "r + 1 \<le> \<lfloor>x\<rfloor>" by simp
  then have "(of_int (r + 1) :: rat) \<le> of_int \<lfloor>x\<rfloor>" by (simp only: of_int_le_iff)
  with x Finite show ?thesis by simp
qed simp_all

lemma js_le_pred: "js_le r c \<Longrightarrow> js_le (r - 1) c"
  by (cases c) simp_all

lemma bounded_work: "bounded q \<Longrightarrow> bounded (work q)"
  by (auto simp: bounded_def work_def js_le_succ split: list.splits)

lemma handler_cases:
  "handler err q = q\<lparr> isClosed := True, items := [], called := called q @ [(callback q, [err])] \<rparr>
   \<or> handler err q = q\<lparr> running := running q - 1, called := called q @ [(callback q, [])] \<rparr>
   \<or> handler err q = work (q\<lparr> running := running q - 1 \<rparr>)"
  unfolding handler_def Let_def by (cases "truthy err") auto

lemma bounded_handler: "bounded q \<Longrightarrow> bounded (handler err q)"
proof -
  assume b: "bounded q"
  then have b1: "bounded (q\<lparr> running := running q - 1 \<rparr>)"
    by (simp add: bounded_def js_le_pred)
  then have "bounded (work (q\<lparr> running := running q - 1 \<rparr>))"
    by (rule bounded_work)
  moreover from b1 have "bounded (q\<lparr> running := running q - 1, called := called q @ [(callback q, [])] \<rparr>)"
    by (simp add: bounded_def)
  moreover from b have "bounded (q\<lparr> isClosed := True, items := [], called := called q @ [(callback q, [err])] \<rparr>)"
    by (simp add: bounded_def)
  ultimately show ?thesis using handler_cases [of err q] by metis
qed

lemma bounded_step:
  assumes "bounded q" "step e q = Some q'"
    and "case assigned e of None \<Rightarrow> True | Some n \<Rightarrow> whole n \<and> js_le (running q) n"
  shows "bounded q'"
proof (cases "is_config e")
  case True
  then have "same_work q q'" using assms(2) by (rule same_work_config)
  then have "running q' = running q" by (simp add: same_work_def)
  with assms conc_step [OF assms(2)] show ?thesis
    by (auto simp: bounded_def split: option.splits)
next
  case False
  show ?thesis
  proof (cases e)
    case Tick
    from assms(1) have "bounded (q\<lparr> ticks := ticks q - 1 \<rparr>)" by (simp add: bounded_def)
    then have "bounded (work (q\<lparr> ticks := ticks q - 1 \<rparr>))" by (rule bounded_work)
    with Tick assms(2) show ?thesis by (auto split: if_splits)
  next
    case (Done i err)
    from assms(1) have "bounded (q\<lparr> live := remove1 i (live q) \<rparr>)" by (simp add: bounded_def)
    then have "bounded (handler err (q\<lparr> live := remove1 i (live q) \<rparr>))" by (rule bounded_handler)
    with Done assms(2) show ?thesis by (auto split: if_splits)
  qed (use False assms(1,2) in \<open>auto simp: bounded_def queue_add_def queue_clear_def
        queue_open_def queue_close_def Let_def split: if_splits\<close>)
qed

lemma bounded_run:
  "bounded q \<Longrightarrow> limits_kept es q \<Longrightarrow> run es q = Some q' \<Longrightarrow> bounded q'"
proof (induction es arbitrary: q)
  case Nil
  then show ?case by simp
next
  case (Cons e es)
  from Cons.prems(3) obtain q1 where s: "step e q = Some q1" and r: "run es q1 = Some q'"
    by (auto split: option.splits)
  from Cons.prems(2) s have k: "limits_kept es q1"
    and a: "case assigned e of None \<Rightarrow> True | Some n \<Rightarrow> whole n \<and> js_le (running q) n"
    by simp_all
  from Cons.prems(1) s a have "bounded q1" by (rule bounded_step)
  then show ?case using k r by (rule Cons.IH)
qed

lemma bounded_init: "bounded init"
  by (simp add: bounded_def init_def)

subsection \<open>A limit that admits nothing\<close>

lemma gate_shut: "nonpositive c \<Longrightarrow> 0 \<le> r \<Longrightarrow> js_ge r c"
proof (cases c)
  case (Finite x)
  assume "nonpositive c" "0 \<le> r"
  with Finite have "x \<le> 0" and "(0::rat) \<le> of_int r" by simp_all
  then have "x \<le> of_int r" by (rule order_trans)
  with Finite show ?thesis by simp
qed simp_all

lemma work_shut: "nonpositive (concurrency q) \<Longrightarrow> 0 \<le> running q \<Longrightarrow> work q = q"
  by (simp add: work_def gate_shut)

lemma stuck_running: "accounted q \<Longrightarrow> stuck q \<Longrightarrow> items q \<noteq> [] \<or> running q \<noteq> 0"
  using accounted_aborted [of q] by (auto simp: stuck_def)

lemma handler_shut:
  assumes "accounted q" "nonpositive (concurrency q)" "i \<in> set (live q)"
  shows "invoked (handler err (q\<lparr> live := remove1 i (live q) \<rparr>)) = invoked q"
proof -
  let ?q0 = "q\<lparr> live := remove1 i (live q) \<rparr>"
  let ?q1 = "?q0\<lparr> running := running ?q0 - 1 \<rparr>"
  from assms(1,3) have "accounted ?q1"
    by (simp add: accounted_def aborts_def length_remove1_live)
  then have "0 \<le> running ?q1" by (rule accounted_nonneg)
  with assms(2) have "work ?q1 = ?q1" by (simp add: work_shut)
  with handler_cases [of err ?q0] show ?thesis by auto
qed

lemma handler_stuck:
  assumes "accounted q" "nonpositive (concurrency q)" "i \<in> set (live q)" "stuck q"
  shows "stuck (handler err (q\<lparr> live := remove1 i (live q) \<rparr>)) \<and>
         drains (handler err (q\<lparr> live := remove1 i (live q) \<rparr>)) = drains q"
proof (cases "truthy err")
  case True
  then show ?thesis by (simp add: handler_def stuck_def aborted_def aborts_def drains_def)
next
  case False
  let ?q0 = "q\<lparr> live := remove1 i (live q) \<rparr>"
  let ?q1 = "?q0\<lparr> running := running ?q0 - 1 \<rparr>"
  from assms(1,3) have a1: "accounted ?q1"
    by (simp add: accounted_def aborts_def length_remove1_live)
  moreover from assms(4) have s1: "stuck ?q1" by (simp add: stuck_def aborted_def aborts_def)
  ultimately have "items ?q1 \<noteq> [] \<or> running ?q1 \<noteq> 0" by (rule stuck_running)
  with False have "handler err ?q0 = work ?q1" by (auto simp: handler_def Let_def)
  moreover from a1 have "0 \<le> running ?q1" by (rule accounted_nonneg)
  with assms(2) have "work ?q1 = ?q1" by (simp add: work_shut)
  ultimately have "handler err ?q0 = ?q1" by simp
  with assms(4) show ?thesis by (simp add: stuck_def aborted_def aborts_def drains_def)
qed

lemma step_shut:
  assumes "accounted q" "nonpositive (concurrency q)" "keeps_nonpositive e" "step e q = Some q'"
  shows "nonpositive (concurrency q') \<and> invoked q' = invoked q"
proof -
  from conc_step [OF assms(4)] assms(2,3) have c: "nonpositive (concurrency q')"
    by (simp add: keeps_nonpositive_def split: option.splits)
  have "invoked q' = invoked q"
  proof (cases "is_config e")
    case True
    then have "same_work q q'" using assms(4) by (rule same_work_config)
    then show ?thesis by (simp add: same_work_def)
  next
    case False
    show ?thesis
    proof (cases e)
      case Tick
      from assms(1) have "0 \<le> running q" by (rule accounted_nonneg)
      with assms(2) have "work (q\<lparr> ticks := ticks q - 1 \<rparr>) = q\<lparr> ticks := ticks q - 1 \<rparr>"
        by (simp add: work_shut)
      with Tick assms(4) show ?thesis by (auto split: if_splits)
    next
      case (Done i err)
      with assms(4) have i: "i \<in> set (live q)"
        and q': "q' = handler err (q\<lparr> live := remove1 i (live q) \<rparr>)"
        by (auto split: if_splits)
      from handler_shut [OF assms(1,2) i, of err] q' show ?thesis by simp
    qed (use False assms(4) in \<open>auto simp: queue_add_def queue_clear_def queue_open_def
          queue_close_def Let_def split: if_splits\<close>)
  qed
  with c show ?thesis by simp
qed

lemma step_stuck:
  assumes "accounted q" "nonpositive (concurrency q)" "stuck q" "e \<noteq> Clear" "step e q = Some q'"
  shows "stuck q' \<and> drains q' = drains q"
proof (cases "is_config e")
  case True
  then have "same_work q q'" using assms(5) by (rule same_work_config)
  with assms(3) show ?thesis by (simp add: same_work_def stuck_def aborted_def aborts_def drains_def)
next
  case False
  show ?thesis
  proof (cases e)
    case Close
    from assms(1,3) have "items q \<noteq> [] \<or> running q \<noteq> 0" by (rule stuck_running)
    with Close assms(3,5) show ?thesis
      by (auto simp: queue_close_def Let_def stuck_def aborted_def aborts_def drains_def)
  next
    case Tick
    from assms(1) have "0 \<le> running q" by (rule accounted_nonneg)
    with assms(2) have "work (q\<lparr> ticks := ticks q - 1 \<rparr>) = q\<lparr> ticks := ticks q - 1 \<rparr>"
      by (simp add: work_shut)
    with Tick assms(3,5) show ?thesis
      by (auto simp: stuck_def aborted_def aborts_def drains_def split: if_splits)
  next
    case (Done i err)
    with assms(5) have i: "i \<in> set (live q)"
      and q': "q' = handler err (q\<lparr> live := remove1 i (live q) \<rparr>)"
      by (auto split: if_splits)
    from handler_stuck [OF assms(1,2) i assms(3), of err] q' show ?thesis by simp
  qed (use False assms(3,4,5) in \<open>auto simp: queue_add_def queue_open_def
         stuck_def aborted_def aborts_def drains_def split: if_splits\<close>)
qed

lemma run_shut:
  "accounted q \<Longrightarrow> nonpositive (concurrency q) \<Longrightarrow> list_all keeps_nonpositive es \<Longrightarrow>
   run es q = Some q' \<Longrightarrow> invoked q' = invoked q"
proof (induction es arbitrary: q)
  case Nil
  then show ?case by simp
next
  case (Cons e es)
  from Cons.prems(4) obtain q1 where s: "step e q = Some q1" and r: "run es q1 = Some q'"
    by (auto split: option.splits)
  from Cons.prems(3) have k: "keeps_nonpositive e" and ks: "list_all keeps_nonpositive es"
    by simp_all
  from Cons.prems(1) s have a1: "accounted q1" by (auto dest: accounted_step)
  from step_shut [OF Cons.prems(1,2) k s]
  have n1: "nonpositive (concurrency q1)" and i1: "invoked q1 = invoked q" by simp_all
  from Cons.IH [OF a1 n1 ks r] i1 show ?case by simp
qed

lemma run_stuck:
  "accounted q \<Longrightarrow> nonpositive (concurrency q) \<Longrightarrow> list_all keeps_nonpositive es \<Longrightarrow>
   stuck q \<Longrightarrow> Clear \<notin> set es \<Longrightarrow> run es q = Some q' \<Longrightarrow> drains q' = drains q"
proof (induction es arbitrary: q)
  case Nil
  then show ?case by simp
next
  case (Cons e es)
  from Cons.prems(6) obtain q1 where s: "step e q = Some q1" and r: "run es q1 = Some q'"
    by (auto split: option.splits)
  from Cons.prems(3) have k: "keeps_nonpositive e" and ks: "list_all keeps_nonpositive es"
    by simp_all
  from Cons.prems(5) have ne: "e \<noteq> Clear" and nc: "Clear \<notin> set es" by auto
  from Cons.prems(1) s have a1: "accounted q1" by (auto dest: accounted_step)
  from step_shut [OF Cons.prems(1,2) k s] have n1: "nonpositive (concurrency q1)" by simp
  from step_stuck [OF Cons.prems(1,2,4) ne s]
  have s1: "stuck q1" and d1: "drains q1 = drains q" by simp_all
  from Cons.IH [OF a1 n1 ks s1 nc r] d1 show ?case by simp
qed

subsection \<open>First in, first out\<close>

lemma received_work: "received (work q) @ items (work q) = received q @ items q"
  by (simp add: work_def received_def split: list.splits)

lemma received_handler:
  "\<not> truthy err \<Longrightarrow>
   received (handler err q) @ items (handler err q) = received q @ items q
   \<and> isClosed (handler err q) = isClosed q"
  using received_work [of "q\<lparr> running := running q - 1 \<rparr>"]
    isClosed_work [of "q\<lparr> running := running q - 1 \<rparr>"]
  by (auto simp: handler_def Let_def received_def)

lemma step_fifo:
  assumes "step e q = Some q'" "\<not> discards e"
  shows "received q' @ items q' = received q @ items q @ (if isClosed q then [] else adds [e])
     \<and> (e \<noteq> Close \<longrightarrow> \<not> isClosed q \<longrightarrow> \<not> isClosed q')"
proof (cases "is_config e")
  case True
  then have "same_work q q'" using assms(1) by (rule same_work_config)
  moreover from True have "adds [e] = []" by (cases e) simp_all
  ultimately show ?thesis by (simp add: same_work_def received_def)
next
  case False
  show ?thesis
  proof (cases e)
    case Tick
    with assms(1) show ?thesis
      using received_work [of "q\<lparr> ticks := ticks q - 1 \<rparr>"]
      by (auto simp: isClosed_work received_def split: if_splits)
  next
    case (Done i err)
    with assms show ?thesis
      using received_handler [of err "q\<lparr> live := remove1 i (live q) \<rparr>"]
      by (auto simp: received_def split: if_splits)
  qed (use False assms in \<open>auto simp: queue_add_def queue_open_def queue_close_def
        Let_def received_def split: if_splits\<close>)
qed

lemma adds_append: "adds (es @ es') = adds es @ adds es'"
  by (induction es rule: adds.induct) simp_all

lemma run_fifo_open:
  "run es q = Some q' \<Longrightarrow> \<not> list_ex discards es \<Longrightarrow> \<not> isClosed q \<Longrightarrow> Close \<notin> set es \<Longrightarrow>
   received q' @ items q' = received q @ items q @ adds es \<and> \<not> isClosed q'"
proof (induction es arbitrary: q)
  case Nil
  then show ?case by simp
next
  case (Cons e es)
  from Cons.prems(1) obtain q1 where s: "step e q = Some q1" and r: "run es q1 = Some q'"
    by (auto split: option.splits)
  from Cons.prems(2) have d: "\<not> discards e" and ds: "\<not> list_ex discards es" by simp_all
  from Cons.prems(4) have c: "e \<noteq> Close" and cs: "Close \<notin> set es" by auto
  from step_fifo [OF s d] c Cons.prems(3)
  have f1: "received q1 @ items q1 = received q @ items q @ adds [e]" and o1: "\<not> isClosed q1"
    by simp_all
  from Cons.IH [OF r ds o1 cs] f1
  have "received q' @ items q' = received q @ items q @ adds ([e] @ es)" and "\<not> isClosed q'"
    unfolding adds_append by simp_all
  then show ?case by simp
qed

lemma run_fifo_rest:
  "run es q = Some q' \<Longrightarrow> \<not> list_ex discards es \<Longrightarrow> adds es = [] \<Longrightarrow>
   received q' @ items q' = received q @ items q"
proof (induction es arbitrary: q)
  case Nil
  then show ?case by simp
next
  case (Cons e es)
  from Cons.prems(1) obtain q1 where s: "step e q = Some q1" and r: "run es q1 = Some q'"
    by (auto split: option.splits)
  from Cons.prems(2) have d: "\<not> discards e" and ds: "\<not> list_ex discards es" by simp_all
  from Cons.prems(3) have a: "adds [e] = []" and as: "adds es = []"
    by (cases e; simp)+
  from step_fifo [OF s d] a
  have f1: "received q1 @ items q1 = received q @ items q" by simp
  from Cons.IH [OF r ds as] f1 show ?case by simp
qed

lemma run_fifo:
  assumes "run es init = Some q" "\<not> list_ex discards es"
    and "adds (dropWhile (\<lambda>e. e \<noteq> Close) es) = []"
  shows "received q @ items q = adds es"
proof -
  let ?pre = "takeWhile (\<lambda>e. e \<noteq> Close) es" and ?post = "dropWhile (\<lambda>e. e \<noteq> Close) es"
  have es: "es = ?pre @ ?post" by simp
  with assms(1) have "run (?pre @ ?post) init = Some q" by simp
  then obtain q1 where r1: "run ?pre init = Some q1" and r2: "run ?post q1 = Some q"
    unfolding run_append by (cases "run ?pre init") simp_all
  from assms(2) es have "\<not> list_ex discards (?pre @ ?post)" by simp
  then have d1: "\<not> list_ex discards ?pre" and d2: "\<not> list_ex discards ?post"
    unfolding list_ex_append by simp_all
  have nc: "Close \<notin> set ?pre" by (auto dest: set_takeWhileD)
  have "\<not> isClosed init" by (simp add: init_def)
  with r1 d1 have "received q1 @ items q1 = received init @ items init @ adds ?pre"
    using nc by (auto dest: run_fifo_open)
  then have "received q1 @ items q1 = adds ?pre" by (simp add: init_def received_def)
  moreover from r2 d2 assms(3) have "received q @ items q = received q1 @ items q1"
    by (rule run_fifo_rest)
  moreover have "adds es = adds ?pre @ adds ?post" using adds_append [of ?pre ?post] by simp
  ultimately show ?thesis using assms(3) by simp
qed

subsection \<open>A run that hands every item over\<close>

lemma run_adds:
  "\<not> isClosed q \<Longrightarrow>
   run (map Add xs) q = Some (q\<lparr> items := items q @ xs, ticks := ticks q + length xs \<rparr>)"
proof (induction xs arbitrary: q)
  case Nil
  then show ?case by simp
next
  case (Cons x xs)
  let ?q1 = "q\<lparr> items := items q @ [x], ticks := ticks q + 1 \<rparr>"
  from Cons.prems have "step (Add x) q = Some ?q1" by (simp add: queue_add_def)
  moreover from Cons.prems have "\<not> isClosed ?q1" by simp
  then have "run (map Add xs) ?q1 = Some (?q1\<lparr> items := items ?q1 @ xs, ticks := ticks ?q1 + length xs \<rparr>)"
    by (rule Cons.IH)
  ultimately show ?case by simp
qed

lemma finish_Suc: "finish k (Suc n) = Done k Undefined # finish (Suc k) n"
proof -
  have "[k..<k + Suc n] = k # [Suc k..<k + Suc n]" by (rule upt_conv_Cons) simp
  then show ?thesis by (simp add: finish_def del: upt_Suc)
qed

lemma run_finish:
  "items q = ys \<Longrightarrow> live q = [k] \<Longrightarrow> length (invoked q) = Suc k \<Longrightarrow>
   fst (invoked q ! k) \<noteq> Noop \<Longrightarrow> worker q \<noteq> Noop \<Longrightarrow> running q = 1 \<Longrightarrow> isClosed q \<Longrightarrow>
   \<not> js_ge 0 (concurrency q) \<Longrightarrow>
   \<exists>q'. run (finish k (Suc (length ys))) q = Some q' \<and> received q' = received q @ ys \<and>
     items q' = [] \<and> running q' = 0 \<and> live q' = [] \<and> called q' = called q @ [(callback q, [])]"
proof (induction ys arbitrary: q k)
  case Nil
  let ?q' = "q\<lparr> live := [], running := 0, called := called q @ [(callback q, [])] \<rparr>"
  from Nil have "step (Done k Undefined) q = Some ?q'"
    by (simp add: handler_def Let_def)
  then have "run (finish k (Suc (length ([]::jsval list)))) q = Some ?q'"
    by (simp add: finish_Suc finish_def)
  moreover from Nil have "received ?q' = received q @ [] \<and> items ?q' = [] \<and> running ?q' = 0 \<and>
      live ?q' = [] \<and> called ?q' = called q @ [(callback q, [])]"
    by (simp add: received_def)
  ultimately show ?case by blast
next
  case (Cons y ys)
  let ?q1 = "q\<lparr> live := [Suc k], running := 1, items := ys,
                invoked := invoked q @ [(worker q, y)] \<rparr>"
  from Cons.prems have "work (q\<lparr> live := [], running := 0 \<rparr>) = ?q1"
    by (simp add: work_def)
  with Cons.prems have s: "step (Done k Undefined) q = Some ?q1"
    by (simp add: handler_def Let_def)
  from Cons.prems have "\<exists>q'. run (finish (Suc k) (Suc (length ys))) ?q1 = Some q' \<and>
      received q' = received ?q1 @ ys \<and> items q' = [] \<and> running q' = 0 \<and> live q' = [] \<and>
      called q' = called ?q1 @ [(callback ?q1, [])]"
    by (intro Cons.IH) (simp_all add: nth_append)
  then obtain q' where "run (finish (Suc k) (Suc (length ys))) ?q1 = Some q'"
    and "received q' = received ?q1 @ ys" and "items q' = []" and "running q' = 0"
    and "live q' = []" and "called q' = called ?q1 @ [(callback ?q1, [])]" by blast
  with s have "run (finish k (Suc (length (y # ys)))) q = Some q' \<and>
      received q' = received q @ y # ys \<and> items q' = [] \<and> running q' = 0 \<and> live q' = [] \<and>
      called q' = called q @ [(callback q, [])]"
    by (simp add: finish_Suc [of k] received_def)
  then show ?case by blast
qed

lemma synchronous_run:
  assumes "xs \<noteq> []"
  shows "\<exists>q. run (synchronous w xs) init = Some q \<and> received q = xs \<and>
     items q = [] \<and> running q = 0 \<and> called q = [(Noop, [])]"
proof -
  from assms obtain x xs' where xs: "xs = x # xs'" by (cases xs) auto
  let ?q0 = "init\<lparr> worker := UserFn w \<rparr>"
  let ?q1 = "?q0\<lparr> items := xs, ticks := length xs \<rparr>"
  let ?q2 = "?q1\<lparr> isClosed := True \<rparr>"
  let ?q3 = "?q2\<lparr> ticks := length xs', running := 1, items := xs',
                 invoked := [(UserFn w, x)], live := [0] \<rparr>"
  have s0: "step (Worker [Function (UserFn w)]) init = Some ?q0" by simp
  have "\<not> isClosed ?q0" by (simp add: init_def)
  then have "run (map Add xs) ?q0 = Some (?q0\<lparr> items := items ?q0 @ xs, ticks := ticks ?q0 + length xs \<rparr>)"
    by (rule run_adds)
  then have s1: "run (map Add xs) ?q0 = Some ?q1" by (simp add: init_def)
  have s2: "step Close ?q1 = Some ?q2" using assms by (simp add: queue_close_def Let_def)
  have s3: "step Tick ?q2 = Some ?q3" using xs by (simp add: work_def init_def)
  have "\<exists>q'. run (finish 0 (Suc (length xs'))) ?q3 = Some q' \<and> received q' = received ?q3 @ xs' \<and>
     items q' = [] \<and> running q' = 0 \<and> live q' = [] \<and> called q' = called ?q3 @ [(callback ?q3, [])]"
    by (rule run_finish) (simp_all add: init_def)
  then obtain q where r: "run (finish 0 (Suc (length xs'))) ?q3 = Some q"
    and rc: "received q = received ?q3 @ xs'" and e: "items q = []" "running q = 0"
    and c: "called q = called ?q3 @ [(callback ?q3, [])]" by blast
  from s0 s1 s2 s3 r xs have "run (synchronous w xs) init = Some q"
    by (simp add: synchronous_def run_append)
  moreover from rc xs have "received q = xs" by (simp add: received_def)
  moreover from c have "called q = [(Noop, [])]" by (simp add: init_def)
  ultimately show ?thesis using e by blast
qed

subsection \<open>After a drain\<close>

lemma idle_no_live: "accounted q \<Longrightarrow> idle q \<Longrightarrow> live q = []"
proof -
  assume "accounted q" "idle q"
  then have "int (length (live q)) + int (length (aborts q)) = 0"
    by (simp add: accounted_def idle_def)
  then have "length (live q) = 0" by arith
  then show ?thesis by simp
qed

lemma step_idle:
  assumes "accounted q" "idle q" "e \<noteq> Open" "step e q = Some q'"
  shows "idle q' \<and> map snd (called q') = map snd (called q) @ replicate (count_list [e] Close) []"
proof (cases "is_config e")
  case True
  then have "same_work q q'" using assms(4) by (rule same_work_config)
  moreover from True have "e \<noteq> Close" by (cases e) simp_all
  ultimately show ?thesis using assms(2) by (simp add: same_work_def idle_def)
next
  case False
  show ?thesis
  proof (cases e)
    case Tick
    from assms(2) have "work (q\<lparr> ticks := ticks q - 1 \<rparr>) = q\<lparr> ticks := ticks q - 1 \<rparr>"
      by (simp add: work_def idle_def)
    with Tick assms(2,4) show ?thesis by (auto simp: idle_def split: if_splits)
  next
    case (Done i err)
    from assms(1,2) have "live q = []" by (rule idle_no_live)
    with Done assms(4) show ?thesis by simp
  qed (use False assms(2,3,4) in \<open>auto simp: idle_def queue_add_def queue_clear_def
         queue_close_def Let_def\<close>)
qed

lemma run_idle:
  "accounted q \<Longrightarrow> idle q \<Longrightarrow> Open \<notin> set es \<Longrightarrow> run es q = Some q' \<Longrightarrow>
   map snd (called q') = map snd (called q) @ replicate (count_list es Close) []"
proof (induction es arbitrary: q)
  case Nil
  then show ?case by simp
next
  case (Cons e es)
  from Cons.prems(4) obtain q1 where s: "step e q = Some q1" and r: "run es q1 = Some q'"
    by (auto split: option.splits)
  from Cons.prems(3) have ne: "e \<noteq> Open" and no: "Open \<notin> set es" by auto
  from Cons.prems(1) s have a1: "accounted q1" by (auto dest: accounted_step)
  from step_idle [OF Cons.prems(1,2) ne s]
  have i1: "idle q1"
    and c1: "map snd (called q1) = map snd (called q) @ replicate (count_list [e] Close) []"
    by simp_all
  from Cons.IH [OF a1 i1 no r] c1 show ?case
    by (simp add: replicate_app_Cons_same)
qed

subsection \<open>Pending items are picked up\<close>

lemma unaborted_live: "accounted q \<Longrightarrow> \<not> aborted q \<Longrightarrow> running q = int (length (live q))"
  by (simp add: accounted_def aborted_def)

lemma work_feeds:
  assumes "accounted q" "\<not> aborted q" "\<not> js_ge 0 (concurrency q)"
  shows "items (work q) = [] \<or> live (work q) \<noteq> []"
proof (cases "js_ge (running q) (concurrency q)")
  case True
  with assms(3) have "running q \<noteq> 0" by auto
  with unaborted_live [OF assms(1,2)] have "live q \<noteq> []" by auto
  with True show ?thesis by (simp add: work_def)
next
  case False
  then show ?thesis by (cases "items q") (simp_all add: work_def)
qed

lemma aborted_work: "aborted (work q) = aborted q"
  by (simp add: aborted_def aborts_def called_work)

lemma handler_feeds:
  assumes "accounted q" "\<not> aborted q" "\<not> js_ge 0 (concurrency q)" "i \<in> set (live q)"
    "\<not> truthy err"
  shows "fed (handler err (q\<lparr> live := remove1 i (live q) \<rparr>))
     \<and> \<not> aborted (handler err (q\<lparr> live := remove1 i (live q) \<rparr>))"
proof -
  let ?q0 = "q\<lparr> live := remove1 i (live q) \<rparr>"
  let ?q1 = "?q0\<lparr> running := running ?q0 - 1 \<rparr>"
  from assms(1,4) have a1: "accounted ?q1"
    by (simp add: accounted_def aborts_def length_remove1_live)
  from assms(2) have b1: "\<not> aborted ?q1" by (simp add: aborted_def aborts_def)
  from assms(3) have c1: "\<not> js_ge 0 (concurrency ?q1)" by simp
  from a1 b1 c1 have w: "items (work ?q1) = [] \<or> live (work ?q1) \<noteq> []" by (rule work_feeds)
  from handler_cases [of err ?q0] assms(5)
  have "handler err ?q0 = ?q1\<lparr> called := called ?q1 @ [(callback ?q1, [])] \<rparr> \<and> items ?q1 = []
     \<or> handler err ?q0 = work ?q1"
    by (auto simp: handler_def Let_def)
  then show ?thesis
  proof
    assume "handler err ?q0 = ?q1\<lparr> called := called ?q1 @ [(callback ?q1, [])] \<rparr> \<and> items ?q1 = []"
    with b1 show ?thesis by (simp add: fed_def aborted_def aborts_def)
  next
    assume "handler err ?q0 = work ?q1"
    with w b1 show ?thesis by (auto simp: fed_def aborted_work)
  qed
qed

lemma step_feeds:
  assumes "accounted q" "\<not> aborted q" "\<not> js_ge 0 (concurrency q)" "fed q"
    "step e q = Some q'" "\<not> discards e" "keeps_admitting e"
  shows "\<not> aborted q' \<and> \<not> js_ge 0 (concurrency q') \<and> fed q'"
proof -
  from conc_step [OF assms(5)] assms(3,7) have c: "\<not> js_ge 0 (concurrency q')"
    by (simp add: keeps_admitting_def split: option.splits)
  have "\<not> aborted q' \<and> fed q'"
  proof (cases "is_config e")
    case True
    then have "same_work q q'" using assms(5) by (rule same_work_config)
    with assms(2,4) show ?thesis by (simp add: same_work_def fed_def aborted_def aborts_def)
  next
    case False
    show ?thesis
    proof (cases e)
      case Tick
      let ?q0 = "q\<lparr> ticks := ticks q - 1 \<rparr>"
      from assms(1) have "accounted ?q0" by (simp add: accounted_def aborts_def)
      moreover from assms(2) have "\<not> aborted ?q0" by (simp add: aborted_def aborts_def)
      moreover from assms(3) have "\<not> js_ge 0 (concurrency ?q0)" by simp
      ultimately have "items (work ?q0) = [] \<or> live (work ?q0) \<noteq> []" by (rule work_feeds)
      moreover from assms(2) have "\<not> aborted (work ?q0)"
        by (simp add: aborted_work) (simp add: aborted_def aborts_def)
      moreover from Tick assms(5) have "q' = work ?q0" by (auto split: if_splits)
      ultimately show ?thesis by (auto simp: fed_def)
    next
      case (Done i err)
      with assms(5) have i: "i \<in> set (live q)"
        and q': "q' = handler err (q\<lparr> live := remove1 i (live q) \<rparr>)"
        by (auto split: if_splits)
      from Done assms(6) have "\<not> truthy err" by simp
      from handler_feeds [OF assms(1,2,3) i this] q' show ?thesis by simp
    qed (use False assms(2,4,5,6) in \<open>auto simp: queue_add_def queue_open_def queue_close_def
          Let_def fed_def aborted_def aborts_def split: if_splits\<close>)
  qed
  with c show ?thesis by simp
qed

lemma run_feeds:
  "accounted q \<Longrightarrow> \<not> aborted q \<Longrightarrow> \<not> js_ge 0 (concurrency q) \<Longrightarrow> fed q \<Longrightarrow>
   run es q = Some q' \<Longrightarrow> \<not> list_ex discards es \<Longrightarrow> list_all keeps_admitting es \<Longrightarrow> fed q'"
proof (induction es arbitrary: q)
  case Nil
  then show ?case by simp
next
  case (Cons e es)
  from Cons.prems(5) obtain q1 where s: "step e q = Some q1" and r: "run es q1 = Some q'"
    by (auto split: option.splits)
  from Cons.prems(6) have d: "\<not> discards e" and ds: "\<not> list_ex discards es" by simp_all
  from Cons.prems(7) have k: "keeps_admitting e" and ks: "list_all keeps_admitting es" by simp_all
  from Cons.prems(1) s have a1: "accounted q1" by (auto dest: accounted_step)
  from step_feeds [OF Cons.prems(1,2,3,4) s d k]
  have "\<not> aborted q1" "\<not> js_ge 0 (concurrency q1)" "fed q1" by simp_all
  with a1 show ?case using r ds ks by (rule Cons.IH)
qed

lemma fed_init: "fed init \<and> \<not> aborted init \<and> \<not> js_ge 0 (concurrency init)"
  by (simp add: fed_def aborted_def aborts_def init_def)

lemma run_spare_ticks:
  "items q = [] \<Longrightarrow> ticks q = n \<Longrightarrow> run (replicate n Tick) q = Some (q\<lparr> ticks := 0 \<rparr>)"
proof (induction n arbitrary: q)
  case 0
  then show ?case by simp
next
  case (Suc n)
  let ?q1 = "q\<lparr> ticks := n \<rparr>"
  from Suc.prems have "step Tick q = Some ?q1" by (simp add: work_def)
  moreover have "run (replicate n Tick) ?q1 = Some (?q1\<lparr> ticks := 0 \<rparr>)"
    using Suc.prems by (intro Suc.IH) simp_all
  ultimately show ?case by simp
qed

lemma ticks_work: "ticks (work q) = ticks q"
  by (simp add: work_def split: list.splits)

lemma ticks_handler: "ticks (handler err q) = ticks q"
  using handler_cases [of err q] by (auto simp: ticks_work)

lemma ticks_finish: "run (finish k n) q = Some q' \<Longrightarrow> ticks q' = ticks q"
proof (induction n arbitrary: k q)
  case 0
  then show ?case by (simp add: finish_def)
next
  case (Suc n)
  from Suc.prems obtain q1 where s: "step (Done k Undefined) q = Some q1"
    and r: "run (finish (Suc k) n) q1 = Some q'"
    by (auto simp: finish_Suc split: option.splits)
  from s have "ticks q1 = ticks q" by (auto simp: ticks_handler split: if_splits)
  with Suc.IH [OF r] show ?case by simp
qed

lemma settled_run:
  assumes "xs \<noteq> []"
  shows "\<exists>q. run (settled w xs) init = Some q \<and> received q = xs \<and> items q = [] \<and>
     ticks q = 0 \<and> live q = [] \<and> called q = [(Noop, [])]"
proof -
  from assms obtain x xs' where xs: "xs = x # xs'" by (cases xs) auto
  let ?q0 = "init\<lparr> worker := UserFn w \<rparr>"
  let ?q1 = "?q0\<lparr> items := xs, ticks := length xs \<rparr>"
  let ?q2 = "?q1\<lparr> isClosed := True \<rparr>"
  let ?q3 = "?q2\<lparr> ticks := length xs', running := 1, items := xs',
                 invoked := [(UserFn w, x)], live := [0] \<rparr>"
  have s0: "step (Worker [Function (UserFn w)]) init = Some ?q0" by simp
  have "\<not> isClosed ?q0" by (simp add: init_def)
  then have "run (map Add xs) ?q0 = Some (?q0\<lparr> items := items ?q0 @ xs, ticks := ticks ?q0 + length xs \<rparr>)"
    by (rule run_adds)
  then have s1: "run (map Add xs) ?q0 = Some ?q1" by (simp add: init_def)
  have s2: "step Close ?q1 = Some ?q2" using assms by (simp add: queue_close_def Let_def)
  have s3: "step Tick ?q2 = Some ?q3" using xs by (simp add: work_def init_def)
  have "\<exists>q'. run (finish 0 (Suc (length xs'))) ?q3 = Some q' \<and> received q' = received ?q3 @ xs' \<and>
     items q' = [] \<and> running q' = 0 \<and> live q' = [] \<and> called q' = called ?q3 @ [(callback ?q3, [])]"
    by (rule run_finish) (simp_all add: init_def)
  then obtain q where r: "run (finish 0 (Suc (length xs'))) ?q3 = Some q"
    and rc: "received q = received ?q3 @ xs'" and e: "items q = []" "live q = []"
    and c: "called q = called ?q3 @ [(callback ?q3, [])]" by blast
  from r have t: "ticks q = length xs'" using ticks_finish [OF r] by simp
  from s0 s1 s2 s3 r xs have "run (synchronous w xs) init = Some q"
    by (simp add: synchronous_def run_append)
  moreover from e(1) t have "run (replicate (length xs') Tick) q = Some (q\<lparr> ticks := 0 \<rparr>)"
    by (rule run_spare_ticks)
  ultimately have "run (settled w xs) init = Some (q\<lparr> ticks := 0 \<rparr>)"
    using xs by (simp add: settled_def run_append)
  moreover from rc xs have "received (q\<lparr> ticks := 0 \<rparr>) = xs" by (simp add: received_def)
  moreover from c have "called (q\<lparr> ticks := 0 \<rparr>) = [(Noop, [])]" by (simp add: init_def)
  ultimately show ?thesis using e by auto
qed

lemma run_fed:
  assumes "run es init = Some q" "\<not> list_ex discards es" "list_all keeps_admitting es"
  shows "fed q"
proof -
  from fed_init have "fed init" "\<not> aborted init" "\<not> js_ge 0 (concurrency init)" by simp_all
  with accounted_init show ?thesis using assms by (auto dest: run_feeds)
qed

subsection \<open>The callback within one epoch\<close>

lemma idle_epoch:
  "accounted q \<Longrightarrow> idle q \<Longrightarrow> Open \<notin> set es \<Longrightarrow> run es q = Some q' \<Longrightarrow>
   idle_closes es q = count_list es Close \<and> reported es = []"
proof (induction es arbitrary: q)
  case Nil
  then show ?case by simp
next
  case (Cons e es)
  from Cons.prems(4) obtain q1 where s: "step e q = Some q1" and r: "run es q1 = Some q'"
    by (auto split: option.splits)
  from Cons.prems(3) have ne: "e \<noteq> Open" and no: "Open \<notin> set es" by auto
  from Cons.prems(1) s have a1: "accounted q1" by (auto dest: accounted_step)
  from step_idle [OF Cons.prems(1,2) ne s] have i1: "idle q1" by simp
  from Cons.prems(1,2) have "live q = []" by (rule idle_no_live)
  with s have nd: "reported [e] = []" by (cases e) simp_all
  from Cons.prems(2) have "running q = 0 \<and> items q = []" by (simp add: idle_def)
  with Cons.IH [OF a1 i1 no r] s nd show ?case
    using reported_append [of "[e]" es] by simp
qed

lemma aborted_epoch:
  "accounted q \<Longrightarrow> aborted q \<Longrightarrow> run es q = Some q' \<Longrightarrow> idle_closes es q = 0"
proof (induction es arbitrary: q)
  case Nil
  then show ?case by simp
next
  case (Cons e es)
  from Cons.prems(3) obtain q1 where s: "step e q = Some q1" and r: "run es q1 = Some q'"
    by (auto split: option.splits)
  from Cons.prems(1) s have a1: "accounted q1" by (auto dest: accounted_step)
  from step_after_abort [OF Cons.prems(1,2) s] have b1: "aborted q1" by simp
  from Cons.prems(1,2) have "int (length (live q)) < running q" by (rule accounted_aborted)
  then have "running q \<noteq> 0" by simp
  with Cons.IH [OF a1 b1 r] s show ?case by simp
qed

lemma step_calls:
  assumes "step e q = Some q'"
  shows "called q' = called q @ map (Pair (callback q))
     (case e of
        Close \<Rightarrow> if running q = 0 \<and> items q = [] then [ [] ] else []
      | Done i err \<Rightarrow>
          if truthy err then [ [err] ]
          else if isClosed q \<and> items q = [] \<and> running q = 1 then [ [] ] else []
      | _ \<Rightarrow> [])"
proof (cases "is_config e")
  case True
  then have "same_work q q'" using assms by (rule same_work_config)
  with True show ?thesis by (cases e) (simp_all add: same_work_def)
next
  case False
  show ?thesis
  proof (cases e)
    case (Done i err)
    with assms have q': "q' = handler err (q\<lparr> live := remove1 i (live q) \<rparr>)"
      by (auto split: if_splits)
    show ?thesis unfolding q' Done by (auto simp: handler_def Let_def called_work)
  next
    case Tick
    with assms show ?thesis by (auto simp: called_work split: if_splits)
  qed (use False assms in \<open>auto simp: queue_add_def queue_clear_def queue_open_def
         queue_close_def Let_def split: if_splits\<close>)
qed

lemma run_calls_grow: "run es q = Some q' \<Longrightarrow> \<exists>cs. called q' = called q @ cs"
proof (induction es arbitrary: q)
  case Nil
  then show ?case by simp
next
  case (Cons e es)
  from Cons.prems obtain q1 where s: "step e q = Some q1" and r: "run es q1 = Some q'"
    by (auto split: option.splits)
  from step_calls [OF s] obtain c1 where "called q1 = called q @ c1" by blast
  moreover from Cons.IH [OF r] obtain c2 where "called q' = called q1 @ c2" by blast
  ultimately have "called q' = called q @ (c1 @ c2)" by simp
  then show ?case by blast
qed

lemma step_close_idle:
  "step Close q = Some q1 \<Longrightarrow> running q = 0 \<Longrightarrow> items q = [] \<Longrightarrow> idle q1"
  by (auto simp: queue_close_def Let_def idle_def)

lemma step_done_drain:
  "step (Done i err) q = Some q1 \<Longrightarrow> \<not> truthy err \<Longrightarrow> isClosed q \<Longrightarrow> items q = [] \<Longrightarrow>
   running q = 1 \<Longrightarrow> idle q1"
  by (auto simp: handler_def Let_def idle_def split: if_splits)

lemma step_done_abort: "step (Done i err) q = Some q1 \<Longrightarrow> truthy err \<Longrightarrow> aborted q1"
  by (auto simp: handler_def aborted_def aborts_def split: if_splits)

lemma run_epoch:
  "accounted q \<Longrightarrow> Open \<notin> set es \<Longrightarrow> length (reported es) \<le> 1 \<Longrightarrow> run es q = Some q' \<Longrightarrow>
   \<exists>hs. map snd (called q') = map snd (called q) @ hs @ replicate (idle_closes es q) []
     \<and> length hs \<le> 1 \<and> (reported es \<noteq> [] \<longrightarrow> hs = map (\<lambda>err. [err]) (reported es))"
proof (induction es arbitrary: q)
  case Nil
  then show ?case by simp
next
  case (Cons e es)
  let ?P = "\<lambda>hs. map snd (called q') = map snd (called q) @ hs @ replicate (idle_closes (e # es) q) []
     \<and> length hs \<le> 1 \<and> (reported (e # es) \<noteq> [] \<longrightarrow> hs = map (\<lambda>err. [err]) (reported (e # es)))"
  from Cons.prems(4) obtain q1 where s: "step e q = Some q1" and r: "run es q1 = Some q'"
    by (auto split: option.splits)
  from Cons.prems(2) have no: "Open \<notin> set es" by auto
  from Cons.prems(1) s have a1: "accounted q1" by (auto dest: accounted_step)
  note calls = step_calls [OF s]
  have quiet: "\<exists>hs. ?P hs"
    if c: "called q1 = called q" and i: "\<not> (e = Close \<and> running q = 0 \<and> items q = [])"
      and n: "reported [e] = []"
  proof -
    from n have rep: "reported (e # es) = reported es"
      using reported_append [of "[e]" es] by simp
    with Cons.prems(3) have "length (reported es) \<le> 1" by simp
    from Cons.IH [OF a1 no this r] obtain hs
      where "map snd (called q') = map snd (called q1) @ hs @ replicate (idle_closes es q1) []"
        and "length hs \<le> 1" and "reported es \<noteq> [] \<longrightarrow> hs = map (\<lambda>err. [err]) (reported es)"
      by blast
    with c i s rep have "?P hs" by simp
    then show ?thesis by (rule exI)
  qed
  have drained: "?P hs"
    if i: "idle q1" and c: "map snd (called q1) = map snd (called q) @ hs
         @ replicate (if e = Close \<and> running q = 0 \<and> items q = [] then 1 else 0) []"
      and l: "length hs \<le> 1" and n: "reported [e] = []" for hs
  proof -
    from run_idle [OF a1 i no r] idle_epoch [OF a1 i no r]
    have "map snd (called q') = map snd (called q1) @ replicate (count_list es Close) []"
      and "idle_closes es q1 = count_list es Close" and "reported es = []" by simp_all
    moreover from this(3) n have "reported (e # es) = []"
      using reported_append [of "[e]" es] by simp
    ultimately show ?thesis using c l s
      by (simp add: replicate_add [symmetric] del: replicate.simps)
  qed
  consider (closing) "e = Close" | (completion) i err where "e = Done i err"
    | (other) "e \<noteq> Close" "\<forall>i err. e \<noteq> Done i err"
    by (cases e) auto
  then show ?case
  proof cases
    case closing
    from s have sc: "step Close q = Some q1" unfolding closing .
    show ?thesis
    proof (cases "running q = 0 \<and> items q = []")
      case True
      with sc have "idle q1" by (blast intro: step_close_idle)
      moreover from calls closing True have "map snd (called q1) = map snd (called q) @ []
         @ replicate (if e = Close \<and> running q = 0 \<and> items q = [] then 1 else 0) []" by simp
      moreover have "length ([] :: jsval list list) \<le> 1" by simp
      moreover from closing have "reported [e] = []" by simp
      ultimately have "?P []" by (rule drained)
      then show ?thesis by (rule exI)
    next
      case False
      with calls closing have "called q1 = called q" by simp
      moreover from False have "\<not> (e = Close \<and> running q = 0 \<and> items q = [])" by simp
      moreover from closing have "reported [e] = []" by simp
      ultimately show ?thesis by (rule quiet)
    qed
  next
    case (completion i err)
    from s have sd: "step (Done i err) q = Some q1" unfolding completion .
    show ?thesis
    proof (cases "truthy err")
      case True
      with sd have b1: "aborted q1" by (blast intro: step_done_abort)
      from completion True have rep: "reported (e # es) = err # reported es" by simp
      with Cons.prems(3) have re: "reported es = []" by simp
      from run_after_abort [OF a1 b1 r] re
      have c1: "map snd (called q') = map snd (called q1)" by simp
      from aborted_epoch [OF a1 b1 r] have z1: "idle_closes es q1 = 0" .
      from calls completion True have c0: "map snd (called q1) = map snd (called q) @ [ [err] ]"
        by simp
      from completion sd z1 have z: "idle_closes (e # es) q = 0" by simp
      from c1 c0 have c: "map snd (called q') = map snd (called q) @ [ [err] ]"
        by (rule trans)
      have m: "map (\<lambda>err. [err]) (reported (e # es)) = [ [err] ]"
        unfolding rep re by simp
      have "?P [ [err] ]" unfolding z m using c by simp
      then show ?thesis by (rule exI)
    next
      case False
      from completion False have n: "reported [e] = []" by simp
      show ?thesis
      proof (cases "isClosed q \<and> items q = [] \<and> running q = 1")
        case True
        with sd False have "idle q1" by (blast intro: step_done_drain)
        moreover from calls completion False True
        have "map snd (called q1) = map snd (called q) @ [ [] ]
           @ replicate (if e = Close \<and> running q = 0 \<and> items q = [] then 1 else 0) []" by simp
        moreover have "length [ []::jsval list ] \<le> 1" by simp
        ultimately have "?P [ [] ]" using n by (rule drained)
        then show ?thesis by (rule exI)
      next
        case nd: False
        with calls completion False have "called q1 = called q" by simp
        moreover from completion have "\<not> (e = Close \<and> running q = 0 \<and> items q = [])" by simp
        ultimately show ?thesis using n by (rule quiet)
      qed
    qed
  next
    case other
    with calls have "called q1 = called q" by (cases e) simp_all
    moreover from other have "\<not> (e = Close \<and> running q = 0 \<and> items q = [])" by simp
    moreover from other have "reported [e] = []" by (cases e) simp_all
    ultimately show ?thesis by (rule quiet)
  qed
qed

section \<open>The claims\<close>

subsection \<open>C1: how often the callback is called\<close>

text \<open>
  Claim C1, as stated, says that the completion callback is called at most once per
  epoch, whatever the sequence of operations, completions and errors. It fails in two
  ways. With two workers in flight that both report an error, the callback is called
  twice, although the handler's comments call it the final callback of a queue that is
  terminated. And \<^verbatim>\<open>close()\<close> calls the callback every time it finds nothing running
  and nothing pending, so that closing twice calls it twice; that is how \<^verbatim>\<open>close\<close> is
  written.
\<close>

theorem callback_twice_counterexample:
  "run [Worker [Function (UserFn 1)], Callback [Function (UserFn 2)],
        Add (Str ''a''), Add (Str ''b''), Tick, Tick,
        Done 0 (Str ''e1''), Done 1 (Str ''e2'')] init
     = Some (after [Worker [Function (UserFn 1)], Callback [Function (UserFn 2)],
                    Add (Str ''a''), Add (Str ''b''), Tick, Tick,
                    Done 0 (Str ''e1''), Done 1 (Str ''e2'')])
   \<and> called (after [Worker [Function (UserFn 1)], Callback [Function (UserFn 2)],
                     Add (Str ''a''), Add (Str ''b''), Tick, Tick,
                     Done 0 (Str ''e1''), Done 1 (Str ''e2'')])
       = [(UserFn 2, [Str ''e1'']), (UserFn 2, [Str ''e2''])]
   \<and> run [Callback [Function (UserFn 2)], Close, Close] init
     = Some (after [Callback [Function (UserFn 2)], Close, Close])
   \<and> called (after [Callback [Function (UserFn 2)], Close, Close])
       = [(UserFn 2, []), (UserFn 2, [])]"
  by code_simp

text \<open>
  Claim C1, amended. Take any stretch of a run without \<^verbatim>\<open>open()\<close>, starting in any
  state that a run reaches, in which the workers report at most one error. In it the
  completion handlers call the callback at most once: with the error, if one is reported,
  and otherwise at most once with no error; every other call of the callback in the
  stretch is made by a \<^verbatim>\<open>close()\<close> that finds nothing running and nothing pending, one
  call each, and comes after the handlers' call. Once an error has been reported, no
  successful completion of a worker still in flight and no \<^verbatim>\<open>close()\<close> calls the
  callback. Step by step: \<^verbatim>\<open>close()\<close> calls the callback exactly when nothing is running
  and nothing is pending; a successful completion calls it exactly when it leaves the
  queue closed, with nothing pending and nothing running; the first error reported calls
  it with that error; and no other event calls it. What a second error in the same stretch
  does is left open here.
\<close>

theorem callback_once_per_epoch:
  assumes "run es init = Some q" "run es' q = Some q'"
  shows "(Open \<notin> set es' \<and> length (reported es') \<le> 1 \<longrightarrow>
            (\<exists>hs. map snd (called q') = map snd (called q) @ hs @ replicate (idle_closes es' q) []
               \<and> length hs \<le> 1
               \<and> (reported es' \<noteq> [] \<longrightarrow> hs = map (\<lambda>err. [err]) (reported es'))))
       \<and> (aborted q \<and> reported es' = [] \<longrightarrow> called q' = called q)
       \<and> (step e q = Some q1 \<and> \<not> (aborted q \<and> reported [e] \<noteq> []) \<longrightarrow>
            called q1 = called q @ map (Pair (callback q))
              (case e of
                 Close \<Rightarrow> if running q = 0 \<and> items q = [] then [ [] ] else []
               | Done i err \<Rightarrow>
                   if truthy err then [ [err] ]
                   else if isClosed q \<and> items q = [] \<and> running q = 1 then [ [] ] else []
               | _ \<Rightarrow> []))"
proof -
  from assms(1) have a: "accounted q" using accounted_init by (rule accounted_run)
  have 1: "Open \<notin> set es' \<and> length (reported es') \<le> 1 \<longrightarrow>
            (\<exists>hs. map snd (called q') = map snd (called q) @ hs @ replicate (idle_closes es' q) []
               \<and> length hs \<le> 1
               \<and> (reported es' \<noteq> [] \<longrightarrow> hs = map (\<lambda>err. [err]) (reported es')))"
    using run_epoch [OF a _ _ assms(2)] by blast
  have 2: "aborted q \<and> reported es' = [] \<longrightarrow> called q' = called q"
  proof
    assume h: "aborted q \<and> reported es' = []"
    with run_after_abort [OF a _ assms(2)]
    have m: "map snd (called q') = map snd (called q)" by simp
    from run_calls_grow [OF assms(2)] obtain cs where c: "called q' = called q @ cs" by blast
    with m have "map snd cs = []" by simp
    with c show "called q' = called q" by simp
  qed
  have 3: "step e q = Some q1 \<and> \<not> (aborted q \<and> reported [e] \<noteq> []) \<longrightarrow>
            called q1 = called q @ map (Pair (callback q))
              (case e of
                 Close \<Rightarrow> if running q = 0 \<and> items q = [] then [ [] ] else []
               | Done i err \<Rightarrow>
                   if truthy err then [ [err] ]
                   else if isClosed q \<and> items q = [] \<and> running q = 1 then [ [] ] else []
               | _ \<Rightarrow> [])"
    using step_calls [of e q q1] by blast
  from 1 2 3 show ?thesis by (intro conjI)
qed

theorem callback_once_per_epoch_witness:
  "run [] init = Some init
   \<and> run (settled 1 [Str ''a'', Str ''b''] @ [Close, Close]) init
       = Some (after (settled 1 [Str ''a'', Str ''b''] @ [Close, Close]))
   \<and> Open \<notin> set (settled 1 [Str ''a'', Str ''b''] @ [Close, Close])
   \<and> length (reported (settled 1 [Str ''a'', Str ''b''] @ [Close, Close])) \<le> 1
   \<and> idle_closes (settled 1 [Str ''a'', Str ''b''] @ [Close, Close]) init = 2
   \<and> map snd (called (after (settled 1 [Str ''a'', Str ''b''] @ [Close, Close])))
       = [ [] ] @ replicate 2 []
   \<and> run [Worker [Function (UserFn 1)], Add (Str ''a''), Add (Str ''b''), Add (Str ''c''),
           Tick, Tick, Tick, Done 0 (Str ''e'')] init
       = Some (after [Worker [Function (UserFn 1)], Add (Str ''a''), Add (Str ''b''),
                      Add (Str ''c''), Tick, Tick, Tick, Done 0 (Str ''e'')])
   \<and> aborted (after [Worker [Function (UserFn 1)], Add (Str ''a''), Add (Str ''b''),
                     Add (Str ''c''), Tick, Tick, Tick, Done 0 (Str ''e'')])
   \<and> reported [Done 1 Undefined, Done 2 Undefined, Close] = []
   \<and> run [Done 1 Undefined, Done 2 Undefined, Close]
         (after [Worker [Function (UserFn 1)], Add (Str ''a''), Add (Str ''b''),
                 Add (Str ''c''), Tick, Tick, Tick, Done 0 (Str ''e'')])
       = Some (after [Worker [Function (UserFn 1)], Add (Str ''a''), Add (Str ''b''),
                      Add (Str ''c''), Tick, Tick, Tick, Done 0 (Str ''e''),
                      Done 1 Undefined, Done 2 Undefined, Close])
   \<and> called (after [Worker [Function (UserFn 1)], Add (Str ''a''), Add (Str ''b''),
                     Add (Str ''c''), Tick, Tick, Tick, Done 0 (Str ''e''),
                     Done 1 Undefined, Done 2 Undefined, Close]) = [(Noop, [Str ''e''])]
   \<and> step (Done 0 Undefined) (after [Worker [Function (UserFn 1)], Add (Str ''a''), Close, Tick])
       = Some (after [Worker [Function (UserFn 1)], Add (Str ''a''), Close, Tick,
                      Done 0 Undefined])
   \<and> \<not> aborted (after [Worker [Function (UserFn 1)], Add (Str ''a''), Close, Tick])
   \<and> called (after [Worker [Function (UserFn 1)], Add (Str ''a''), Close, Tick,
                     Done 0 Undefined]) = [(Noop, [])]"
proof -
  let ?ds = "settled 1 [Str ''a'', Str ''b''] @ [Close, Close]"
  let ?es = "[Worker [Function (UserFn 1)], Add (Str ''a''), Add (Str ''b''), Add (Str ''c''),
              Tick, Tick, Tick, Done 0 (Str ''e'')]"
  let ?es' = "[Done 1 Undefined, Done 2 Undefined, Close]"
  let ?ss = "[Worker [Function (UserFn 1)], Add (Str ''a''), Close, Tick]"
  have 0: "run [] init = Some init" by simp
  have 1: "run ?ds init = Some (after ?ds)" by code_simp
  have 2: "Open \<notin> set ?ds" by code_simp
  have 3: "length (reported ?ds) \<le> 1" by code_simp
  have 4: "idle_closes ?ds init = 2" by code_simp
  have 5: "map snd (called init) = []" by (simp add: init_def)
  have 6: "map snd (called (after ?ds)) = [ [] ] @ replicate 2 []" by code_simp
  have 7: "run ?es init = Some (after ?es)" by code_simp
  have 8: "aborted (after ?es)" by code_simp
  have 9: "reported ?es' = []" by simp
  have 10: "run ?es' (after ?es) = Some (after (?es @ ?es'))" by code_simp
  have 11: "called (after ?es) = [(Noop, [Str ''e''])]" by code_simp
  have 12: "run ?ss init = Some (after ?ss)" by code_simp
  have 13: "step (Done 0 Undefined) (after ?ss) = Some (after (?ss @ [Done 0 Undefined]))"
    by code_simp
  have 14: "\<not> aborted (after ?ss)" by code_simp
  have 15: "called (after ?ss) = []" and 16: "callback (after ?ss) = Noop"
    and 17: "isClosed (after ?ss) \<and> items (after ?ss) = [] \<and> running (after ?ss) = 1"
    by code_simp+
  have 18: "run [] (after ?ss) = Some (after ?ss)" by simp
  from callback_once_per_epoch [OF 0 1] 2 3
  have "\<exists>hs. map snd (called (after ?ds)) = map snd (called init) @ hs
            @ replicate (idle_closes ?ds init) [] \<and> length hs \<le> 1" by blast
  moreover from callback_once_per_epoch [OF 7 10] 8 9 11
  have "called (after (?es @ ?es')) = [(Noop, [Str ''e''])]" by simp
  moreover from callback_once_per_epoch [OF 12 18, of "Done 0 Undefined" "after (?ss @ [Done 0 Undefined])"]
    13 14 15 16 17
  have "called (after (?ss @ [Done 0 Undefined])) = [(Noop, [])]" by simp
  ultimately show ?thesis using 0 1 2 3 4 6 7 8 9 10 13 14 by simp
qed

subsection \<open>C2: a worker reports an error\<close>

text \<open>
  Claim C2. When a worker calls its completion handler with a truthy error value, the
  queue at once sets the closed flag, empties the pending buffer and calls the completion
  callback with exactly that error value; it does not decrement the running count for the
  failing item and makes no further dispatch attempt from that handler: no worker call is
  made and no \<^verbatim>\<open>work\<close> is scheduled. The handler does so on every truthy error, the
  first one included.
\<close>

theorem worker_error_aborts:
  assumes "truthy err" "step (Done i err) q = Some q'"
  shows "isClosed q' \<and> items q' = [] \<and> called q' = called q @ [(callback q, [err])]
     \<and> running q' = running q \<and> invoked q' = invoked q \<and> ticks q' = ticks q
     \<and> live q' = remove1 i (live q)
     \<and> concurrency q' = concurrency q \<and> worker q' = worker q \<and> callback q' = callback q"
  using assms by (auto simp: handler_def split: if_splits)

theorem worker_error_aborts_witness:
  "truthy (Str ''boom'')
   \<and> step (Done 0 (Str ''boom''))
        (after [Worker [Function (UserFn 1)], Add (Str ''a''), Add (Str ''b''), Tick])
      = Some (after [Worker [Function (UserFn 1)], Add (Str ''a''), Add (Str ''b''), Tick,
                     Done 0 (Str ''boom'')])
   \<and> items (after [Worker [Function (UserFn 1)], Add (Str ''a''), Add (Str ''b''), Tick])
      = [Str ''b'']
   \<and> isClosed (after [Worker [Function (UserFn 1)], Add (Str ''a''), Add (Str ''b''), Tick,
                       Done 0 (Str ''boom'')])
   \<and> items (after [Worker [Function (UserFn 1)], Add (Str ''a''), Add (Str ''b''), Tick,
                    Done 0 (Str ''boom'')]) = []
   \<and> called (after [Worker [Function (UserFn 1)], Add (Str ''a''), Add (Str ''b''), Tick,
                     Done 0 (Str ''boom'')]) = [(Noop, [Str ''boom''])]
   \<and> running (after [Worker [Function (UserFn 1)], Add (Str ''a''), Add (Str ''b''), Tick,
                      Done 0 (Str ''boom'')]) = 1"
proof -
  let ?q = "after [Worker [Function (UserFn 1)], Add (Str ''a''), Add (Str ''b''), Tick]"
  let ?q' = "after [Worker [Function (UserFn 1)], Add (Str ''a''), Add (Str ''b''), Tick,
                    Done 0 (Str ''boom'')]"
  have t: "truthy (Str ''boom'')" by simp
  have s: "step (Done 0 (Str ''boom'')) ?q = Some ?q'" by code_simp
  have "items ?q = [Str ''b'']" and "called ?q = []" and "callback ?q = Noop"
    and "running ?q = 1" by code_simp+
  with worker_error_aborts [OF t s] t s show ?thesis by simp
qed

subsection \<open>C3: the running count and the limit\<close>

text \<open>
  Claim C3, as stated, bounds the running count by the configured limit in every
  reachable state, changes of the limit in the middle of a run included. It fails:
  \<^verbatim>\<open>concurrency(n)\<close> stores any number without looking at the running count. With two
  workers in flight, lowering the limit to 1 leaves the running count at 2.
\<close>

theorem lowered_limit_counterexample:
  "run [Worker [Function (UserFn 1)], Add (Str ''a''), Add (Str ''b''), Tick, Tick,
        Concurrency [Number (Finite 1)]] init
     = Some (after [Worker [Function (UserFn 1)], Add (Str ''a''), Add (Str ''b''), Tick, Tick,
                    Concurrency [Number (Finite 1)]])
   \<and> running (after [Worker [Function (UserFn 1)], Add (Str ''a''), Add (Str ''b''), Tick, Tick,
                      Concurrency [Number (Finite 1)]]) = 2
   \<and> concurrency (after [Worker [Function (UserFn 1)], Add (Str ''a''), Add (Str ''b''), Tick,
                          Tick, Concurrency [Number (Finite 1)]]) = Finite 1
   \<and> \<not> js_le (running (after [Worker [Function (UserFn 1)], Add (Str ''a''), Add (Str ''b''),
                               Tick, Tick, Concurrency [Number (Finite 1)]]))
              (concurrency (after [Worker [Function (UserFn 1)], Add (Str ''a''),
                                   Add (Str ''b''), Tick, Tick,
                                   Concurrency [Number (Finite 1)]]))"
  by code_simp

text \<open>
  The bound also fails without any change in the middle of a run when the limit is not an
  integer: with a limit of one half, the gate admits the first item and one worker runs.
\<close>

lemma fractional_limit_exceeded:
  "running (after [Concurrency [Number (Finite (1 / 2))], Add (Str ''a''), Tick]) = 1
   \<and> \<not> js_le 1 (Finite (1 / 2))"
  by code_simp

text \<open>
  Claim C3, amended. In every state that a run reaches, workers calling their handlers at
  most once, the running count is not negative; and it does not exceed the configured
  limit provided every number that \<^verbatim>\<open>concurrency()\<close>, \<^verbatim>\<open>options()\<close> or the constructor
  stores as the limit has an integer value (or is \<^verbatim>\<open>Infinity\<close>) and is not below the
  running count at the moment it is stored.
\<close>

theorem running_within_limit:
  assumes "run es init = Some q"
  shows "0 \<le> running q \<and> (limits_kept es init \<longrightarrow> js_le (running q) (concurrency q))"
proof -
  from assms have "accounted q" using accounted_init by (rule accounted_run)
  then have "0 \<le> running q" by (rule accounted_nonneg)
  moreover
  { assume "limits_kept es init"
    with bounded_init have "bounded q" using assms by (rule bounded_run)
    then have "js_le (running q) (concurrency q)" by (simp add: bounded_def)
  }
  ultimately show ?thesis by blast
qed

theorem running_within_limit_witness:
  "run [Options [Object [(''concurrency'', Number (Finite 2)),
                         (''worker'', Function (UserFn 1))]],
        Add (Str ''a''), Add (Str ''b''), Add (Str ''c''), Tick, Tick, Tick,
        Concurrency [Number (Finite 3)], Done 0 Undefined] init
     = Some (after [Options [Object [(''concurrency'', Number (Finite 2)),
                                     (''worker'', Function (UserFn 1))]],
                    Add (Str ''a''), Add (Str ''b''), Add (Str ''c''), Tick, Tick, Tick,
                    Concurrency [Number (Finite 3)], Done 0 Undefined])
   \<and> limits_kept [Options [Object [(''concurrency'', Number (Finite 2)),
                                   (''worker'', Function (UserFn 1))]],
                  Add (Str ''a''), Add (Str ''b''), Add (Str ''c''), Tick, Tick, Tick,
                  Concurrency [Number (Finite 3)], Done 0 Undefined] init
   \<and> running (after [Options [Object [(''concurrency'', Number (Finite 2)),
                                      (''worker'', Function (UserFn 1))]],
                     Add (Str ''a''), Add (Str ''b''), Add (Str ''c''), Tick, Tick, Tick,
                     Concurrency [Number (Finite 3)], Done 0 Undefined]) = 2
   \<and> js_le 2 (Finite 3)"
proof -
  let ?es = "[Options [Object [(''concurrency'', Number (Finite 2)),
                               (''worker'', Function (UserFn 1))]],
              Add (Str ''a''), Add (Str ''b''), Add (Str ''c''), Tick, Tick, Tick,
              Concurrency [Number (Finite 3)], Done 0 Undefined]"
  have 1: "run ?es init = Some (after ?es)" by code_simp
  have 2: "limits_kept ?es init" by code_simp
  have 3: "running (after ?es) = 2" and 4: "concurrency (after ?es) = Finite 3" by code_simp+
  from running_within_limit [OF 1] 1 2 3 4 show ?thesis by simp
qed

subsection \<open>C4: every added item goes to the worker once, in order\<close>

text \<open>
  Claim C4, as stated, says that the worker is called once for every item added before
  \<^verbatim>\<open>close\<close>. It fails: the gate of \<^verbatim>\<open>work\<close> holds items back for as long as the
  running count is at the limit. With the default worker, which never calls its handler,
  and the default limit of 10, the eleventh item added is still pending when every
  scheduled attempt has run; with a limit of 0 the only item added is.
\<close>

theorem starved_item_counterexample:
  "run (replicate 11 (Add Null) @ Close # replicate 11 Tick) init
     = Some (after (replicate 11 (Add Null) @ Close # replicate 11 Tick))
   \<and> adds (replicate 11 (Add Null) @ Close # replicate 11 Tick) = replicate 11 Null
   \<and> received (after (replicate 11 (Add Null) @ Close # replicate 11 Tick)) = replicate 10 Null
   \<and> items (after (replicate 11 (Add Null) @ Close # replicate 11 Tick)) = [Null]
   \<and> ticks (after (replicate 11 (Add Null) @ Close # replicate 11 Tick)) = 0
   \<and> worker (after (replicate 11 (Add Null) @ Close # replicate 11 Tick)) = Noop
   \<and> run [Worker [Function (UserFn 1)], Concurrency [Number (Finite 0)], Add (Str ''a''),
           Close, Tick] init
     = Some (after [Worker [Function (UserFn 1)], Concurrency [Number (Finite 0)],
                    Add (Str ''a''), Close, Tick])
   \<and> received (after [Worker [Function (UserFn 1)], Concurrency [Number (Finite 0)],
                       Add (Str ''a''), Close, Tick]) = []
   \<and> items (after [Worker [Function (UserFn 1)], Concurrency [Number (Finite 0)],
                    Add (Str ''a''), Close, Tick]) = [Str ''a'']
   \<and> ticks (after [Worker [Function (UserFn 1)], Concurrency [Number (Finite 0)],
                    Add (Str ''a''), Close, Tick]) = 0
   \<and> live (after [Worker [Function (UserFn 1)], Concurrency [Number (Finite 0)],
                   Add (Str ''a''), Close, Tick]) = []"
  by code_simp

text \<open>
  Claim C4, amended. Take a run in which every \<^verbatim>\<open>add\<close> is made before \<^verbatim>\<open>close\<close> and in
  which nothing throws pending items away (no \<^verbatim>\<open>clear()\<close>, no error reported by a
  worker). At every moment of it, the items the worker has received so far, in the order
  of the worker calls, followed by the pending items, are exactly the added items in the
  order of the \<^verbatim>\<open>add\<close> calls: the worker receives each added item itself, at most once
  and in FIFO order. If moreover every limit in force lets a worker start when none is
  running (it is positive or \<^verbatim>\<open>NaN\<close>), then as long as an item is pending, a dispatch
  attempt is scheduled or a worker is running; so once every scheduled attempt has run
  and every worker has called its handler, the worker has received every added item
  exactly once. For every non-empty list of items there is such a run. Nothing is said
  about the order of completion.
\<close>

theorem fifo_dispatch:
  "(run es init = Some q \<and> \<not> list_ex discards es
      \<and> adds (dropWhile (\<lambda>e. e \<noteq> Close) es) = [] \<longrightarrow>
      received q @ items q = adds es
      \<and> (list_all keeps_admitting es \<longrightarrow>
           (items q \<noteq> [] \<longrightarrow> 0 < ticks q \<or> live q \<noteq> [])
           \<and> (ticks q = 0 \<and> live q = [] \<longrightarrow> items q = [] \<and> received q = adds es)))
   \<and> (xs \<noteq> [] \<longrightarrow>
        (\<exists>q'. run (settled w xs) init = Some q' \<and> ticks q' = 0 \<and> live q' = []
           \<and> received q' = xs \<and> called q' = [(Noop, [])]))"
proof -
  { assume r: "run es init = Some q" and d: "\<not> list_ex discards es"
      and a: "adds (dropWhile (\<lambda>e. e \<noteq> Close) es) = []"
    from r d a have f: "received q @ items q = adds es" by (rule run_fifo)
    { assume k: "list_all keeps_admitting es"
      with r d have "fed q" by (rule run_fed)
      with f have "(items q \<noteq> [] \<longrightarrow> 0 < ticks q \<or> live q \<noteq> [])
           \<and> (ticks q = 0 \<and> live q = [] \<longrightarrow> items q = [] \<and> received q = adds es)"
        by (auto simp: fed_def)
    }
    with f have "received q @ items q = adds es
      \<and> (list_all keeps_admitting es \<longrightarrow>
           (items q \<noteq> [] \<longrightarrow> 0 < ticks q \<or> live q \<noteq> [])
           \<and> (ticks q = 0 \<and> live q = [] \<longrightarrow> items q = [] \<and> received q = adds es))"
      by blast
  }
  moreover have "xs \<noteq> [] \<longrightarrow>
        (\<exists>q'. run (settled w xs) init = Some q' \<and> ticks q' = 0 \<and> live q' = []
           \<and> received q' = xs \<and> called q' = [(Noop, [])])"
    using settled_run [of xs w] by blast
  ultimately show ?thesis by blast
qed

theorem fifo_dispatch_witness:
  "run (settled 1 [Str ''a'', Str ''b'', Str ''c'']) init
     = Some (after (settled 1 [Str ''a'', Str ''b'', Str ''c'']))
   \<and> \<not> list_ex discards (settled 1 [Str ''a'', Str ''b'', Str ''c''])
   \<and> adds (dropWhile (\<lambda>e. e \<noteq> Close) (settled 1 [Str ''a'', Str ''b'', Str ''c''])) = []
   \<and> list_all keeps_admitting (settled 1 [Str ''a'', Str ''b'', Str ''c''])
   \<and> ticks (after (settled 1 [Str ''a'', Str ''b'', Str ''c''])) = 0
   \<and> live (after (settled 1 [Str ''a'', Str ''b'', Str ''c''])) = []
   \<and> [Str ''a'', Str ''b'', Str ''c''] \<noteq> []
   \<and> items (after (settled 1 [Str ''a'', Str ''b'', Str ''c''])) = []
   \<and> received (after (settled 1 [Str ''a'', Str ''b'', Str ''c'']))
       = [Str ''a'', Str ''b'', Str ''c'']
   \<and> run [Concurrency [Number (Finite 1)], Add (Str ''a''), Add (Str ''b''), Tick, Tick] init
     = Some (after [Concurrency [Number (Finite 1)], Add (Str ''a''), Add (Str ''b''),
                    Tick, Tick])
   \<and> items (after [Concurrency [Number (Finite 1)], Add (Str ''a''), Add (Str ''b''),
                    Tick, Tick]) = [Str ''b'']
   \<and> live (after [Concurrency [Number (Finite 1)], Add (Str ''a''), Add (Str ''b''),
                   Tick, Tick]) = [0]"
proof -
  let ?xs = "[Str ''a'', Str ''b'', Str ''c'']"
  let ?es = "settled 1 ?xs"
  let ?ps = "[Concurrency [Number (Finite 1)], Add (Str ''a''), Add (Str ''b''), Tick, Tick]"
  have 1: "run ?es init = Some (after ?es)" by code_simp
  have 2: "\<not> list_ex discards ?es" by code_simp
  have 3: "adds (dropWhile (\<lambda>e. e \<noteq> Close) ?es) = []" by code_simp
  have 4: "list_all keeps_admitting ?es" by code_simp
  have 5: "ticks (after ?es) = 0" and 6: "live (after ?es) = []" by code_simp+
  have 7: "adds ?es = ?xs" by code_simp
  have 8: "?xs \<noteq> []" by simp
  have 9: "run ?ps init = Some (after ?ps)" by code_simp
  have 10: "\<not> list_ex discards ?ps" and 11: "adds (dropWhile (\<lambda>e. e \<noteq> Close) ?ps) = []"
    and 12: "list_all keeps_admitting ?ps" by code_simp+
  have 13: "items (after ?ps) = [Str ''b'']" and 14: "live (after ?ps) = [0]" by code_simp+
  from fifo_dispatch [of ?es "after ?es" ?xs 1] 1 2 3 4 5 6 7 8
  have "items (after ?es) = [] \<and> received (after ?es) = ?xs" by simp
  moreover from fifo_dispatch [of ?ps "after ?ps" ?xs 1] 9 10 11 12 13
  have "0 < ticks (after ?ps) \<or> live (after ?ps) \<noteq> []" by simp
  ultimately show ?thesis using 1 2 3 4 5 6 8 9 13 14 by simp
qed

subsection \<open>C5: closing\<close>

text \<open>
  In the module that the test suite exercises, \<^verbatim>\<open>close()\<close> sets the closed flag and
  returns the queue; if at that moment the running count is 0 and the pending buffer is
  empty, the completion callback is called with no argument within the call of
  \<^verbatim>\<open>close\<close>; otherwise no callback is called. Nothing else changes.
\<close>

lemma close_completes_idle_queue:
  "fst (queue_close q) = Queue \<and> isClosed (snd (queue_close q))
   \<and> (running q = 0 \<and> items q = [] \<longrightarrow>
        called (snd (queue_close q)) = called q @ [(callback q, [])])
   \<and> (\<not> (running q = 0 \<and> items q = []) \<longrightarrow> called (snd (queue_close q)) = called q)
   \<and> (snd (queue_close q))\<lparr> called := called q \<rparr> = q\<lparr> isClosed := True \<rparr>"
  by (simp add: queue_close_def Let_def)

lemma close_completes_idle_queue_example:
  "running init = 0 \<and> items init = []
   \<and> called (snd (queue_close init)) = [(Noop, [])]
   \<and> \<not> (running (after [Add Null]) = 0 \<and> items (after [Add Null]) = [])
   \<and> called (snd (queue_close (after [Add Null]))) = []
   \<and> isClosed (snd (queue_close (after [Add Null])))"
proof -
  have i: "running init = 0 \<and> items init = []" and c: "called init = []"
    and b: "callback init = Noop" by (simp_all add: init_def)
  have a: "\<not> (running (after [Add Null]) = 0 \<and> items (after [Add Null]) = [])"
    and ca: "called (after [Add Null]) = []" by code_simp+
  from close_completes_idle_queue [of init] i c b
  have "called (snd (queue_close init)) = [(Noop, [])]" by simp
  moreover from close_completes_idle_queue [of "after [Add Null]"] a ca
  have "called (snd (queue_close (after [Add Null]))) = []
    \<and> isClosed (snd (queue_close (after [Add Null])))" by simp
  ultimately show ?thesis using i a by simp
qed

text \<open>
  The \<^verbatim>\<open>close\<close> of the earlier revision \<^verbatim>\<open>src/queue.js\<close> only sets the flag, in every
  state.
\<close>

lemma legacy_close_silent:
  "called (snd (legacy_close q)) = called q \<and> isClosed (snd (legacy_close q))"
  by (simp add: legacy_close_def)

text \<open>
  Claim C5. \<^verbatim>\<open>close()\<close> sets the closed flag, and if at that moment the running count is
  0 and the pending buffer is empty, it calls the completion callback with no error within
  the call. The test suite asks for it (\<^verbatim>\<open>"close" method should result in a non-error
  callback\<close>) and the later revision does it, but the \<^verbatim>\<open>close\<close> of \<^verbatim>\<open>src/queue.js\<close>
  (lines 217 to 222), which the claim also covers, does not: on a fresh queue with a
  callback set, nothing running and nothing pending, it sets the flag and calls nothing,
  where the later revision calls the callback once.
\<close>

theorem legacy_close_never_calls_back:
  "running (after [Callback [Function (UserFn 2)]]) = 0
   \<and> items (after [Callback [Function (UserFn 2)]]) = []
   \<and> called (snd (legacy_close (after [Callback [Function (UserFn 2)]]))) = []
   \<and> isClosed (snd (legacy_close (after [Callback [Function (UserFn 2)]])))
   \<and> called (snd (queue_close (after [Callback [Function (UserFn 2)]]))) = [(UserFn 2, [])]"
  by code_simp

subsection \<open>C6: adding\<close>

text \<open>
  Claim C6. \<^verbatim>\<open>add(item)\<close> on a closed queue changes nothing and returns the queue: the
  item is not appended, no dispatch attempt is scheduled, and every later run goes as if
  the call had not been made, so the item is never handed to the worker. On an open queue
  the call appends the item to the tail of the pending buffer (and schedules one dispatch
  attempt).
\<close>

theorem add_on_closed_queue:
  "(isClosed q \<longrightarrow> queue_add item q = (Queue, q) \<and> run (Add item # es) q = run es q)
   \<and> (\<not> isClosed q \<longrightarrow>
        queue_add item q = (Queue, q\<lparr> items := items q @ [item], ticks := ticks q + 1 \<rparr>))"
  by (simp add: queue_add_def)

theorem add_on_closed_queue_witness:
  "isClosed (after [Close]) \<and> queue_add (Str ''x'') (after [Close]) = (Queue, after [Close])
   \<and> run [Add (Str ''x''), Open, Tick] (after [Close]) = run [Open, Tick] (after [Close])
   \<and> \<not> isClosed init
   \<and> items (snd (queue_add (Str ''x'') init)) = [Str ''x'']
   \<and> ticks (snd (queue_add (Str ''x'') init)) = 1"
proof -
  have c: "isClosed (after [Close])" by code_simp
  have o: "\<not> isClosed init" and i: "items init = []" "ticks init = 0"
    by (simp_all add: init_def)
  from add_on_closed_queue [of "after [Close]" "Str ''x''" "[Open, Tick]"] c
  have "queue_add (Str ''x'') (after [Close]) = (Queue, after [Close])
    \<and> run [Add (Str ''x''), Open, Tick] (after [Close]) = run [Open, Tick] (after [Close])"
    by blast
  moreover from add_on_closed_queue [of init "Str ''x''" "[]"] o i
  have "items (snd (queue_add (Str ''x'') init)) = [Str ''x'']
    \<and> ticks (snd (queue_add (Str ''x'') init)) = 1" by simp
  ultimately show ?thesis using c o by blast
qed

subsection \<open>C7: clearing\<close>

text \<open>
  Claim C7. \<^verbatim>\<open>clear()\<close> empties the pending buffer and changes nothing else: the running
  count, the closed flag and the three options stay as they are, the worker calls already
  made can complete exactly as before, and the call returns the queue.
\<close>

theorem clear_only_empties_pending:
  "fst (queue_clear q) = Queue \<and> items (snd (queue_clear q)) = []
   \<and> (snd (queue_clear q))\<lparr> items := items q \<rparr> = q
   \<and> running (snd (queue_clear q)) = running q \<and> isClosed (snd (queue_clear q)) = isClosed q
   \<and> concurrency (snd (queue_clear q)) = concurrency q
   \<and> worker (snd (queue_clear q)) = worker q \<and> callback (snd (queue_clear q)) = callback q
   \<and> live (snd (queue_clear q)) = live q \<and> invoked (snd (queue_clear q)) = invoked q
   \<and> called (snd (queue_clear q)) = called q
   \<and> (step (Done i err) (snd (queue_clear q)) = None) = (step (Done i err) q = None)"
  by (simp add: queue_clear_def)

theorem clear_only_empties_pending_witness:
  "items (after [Worker [Function (UserFn 1)], Concurrency [Number (Finite 1)],
                 Add (Str ''a''), Add (Str ''b''), Tick]) = [Str ''b'']
   \<and> after [Worker [Function (UserFn 1)], Concurrency [Number (Finite 1)],
            Add (Str ''a''), Add (Str ''b''), Tick, Clear]
      = snd (queue_clear (after [Worker [Function (UserFn 1)], Concurrency [Number (Finite 1)],
                                 Add (Str ''a''), Add (Str ''b''), Tick]))
   \<and> items (after [Worker [Function (UserFn 1)], Concurrency [Number (Finite 1)],
                   Add (Str ''a''), Add (Str ''b''), Tick, Clear]) = []
   \<and> running (after [Worker [Function (UserFn 1)], Concurrency [Number (Finite 1)],
                     Add (Str ''a''), Add (Str ''b''), Tick, Clear]) = 1
   \<and> received (after [Worker [Function (UserFn 1)], Concurrency [Number (Finite 1)],
                      Add (Str ''a''), Add (Str ''b''), Tick, Clear, Close, Done 0 Undefined])
      = [Str ''a'']"
proof -
  let ?es = "[Worker [Function (UserFn 1)], Concurrency [Number (Finite 1)],
              Add (Str ''a''), Add (Str ''b''), Tick]"
  have 1: "items (after ?es) = [Str ''b'']" and 2: "running (after ?es) = 1" by code_simp+
  have 3: "after (?es @ [Clear]) = snd (queue_clear (after ?es))" by code_simp
  have 4: "received (after (?es @ [Clear, Close, Done 0 Undefined])) = [Str ''a'']" by code_simp
  from clear_only_empties_pending [of "after ?es" 0 Undefined] 1 2 3 4 show ?thesis by simp
qed

subsection \<open>C8: dispatch is deferred and re-checks the state\<close>

text \<open>
  Claim C8. \<^verbatim>\<open>add(item)\<close> never calls the worker within its own call: it makes no
  worker call and does not touch the running count; on an open queue it schedules one
  dispatch attempt for a later turn of the event loop. No public method calls the worker:
  a worker call is made only when a scheduled attempt runs or from a completion handler.
  Every attempt checks the state it finds: when the queue runs at capacity or nothing is
  pending, the attempt does nothing, so a redundant scheduled attempt only uses up its
  turn.
\<close>

theorem add_defers_dispatch:
  "invoked (snd (queue_add item q)) = invoked q
   \<and> running (snd (queue_add item q)) = running q
   \<and> live (snd (queue_add item q)) = live q
   \<and> (\<not> isClosed q \<longrightarrow> ticks (snd (queue_add item q)) = ticks q + 1)
   \<and> (step e q = Some q' \<and> invoked q' \<noteq> invoked q \<longrightarrow> e = Tick \<or> (\<exists>i err. e = Done i err))
   \<and> (js_ge (running q) (concurrency q) \<or> items q = [] \<longrightarrow> work q = q)
   \<and> (0 < ticks q \<and> (js_ge (running q) (concurrency q) \<or> items q = []) \<longrightarrow>
        step Tick q = Some (q\<lparr> ticks := ticks q - 1 \<rparr>))"
proof -
  have "step e q = Some q' \<and> invoked q' \<noteq> invoked q \<longrightarrow> e = Tick \<or> (\<exists>i err. e = Done i err)"
  proof (cases "is_config e")
    case True
    then show ?thesis by (auto dest: same_work_config simp: same_work_def)
  next
    case False
    then show ?thesis
      by (cases e) (auto simp: queue_add_def queue_clear_def queue_open_def queue_close_def
          Let_def split: if_splits)
  qed
  moreover have "js_ge (running q) (concurrency q) \<or> items q = [] \<longrightarrow> work q = q"
    by (simp add: work_def)
  moreover have "0 < ticks q \<and> (js_ge (running q) (concurrency q) \<or> items q = []) \<longrightarrow>
        step Tick q = Some (q\<lparr> ticks := ticks q - 1 \<rparr>)"
    by (auto simp: work_def)
  ultimately show ?thesis by (simp add: queue_add_def)
qed

theorem add_defers_dispatch_witness:
  "\<not> isClosed init
   \<and> invoked (snd (queue_add (Str ''a'') init)) = []
   \<and> ticks (snd (queue_add (Str ''a'') init)) = 1
   \<and> 0 < ticks (after [Add (Str ''a''), Add (Str ''b''), Clear])
   \<and> items (after [Add (Str ''a''), Add (Str ''b''), Clear]) = []
   \<and> step Tick (after [Add (Str ''a''), Add (Str ''b''), Clear])
      = Some ((after [Add (Str ''a''), Add (Str ''b''), Clear])\<lparr> ticks := 1 \<rparr>)
   \<and> step Tick (after [Add (Str ''a'')]) = Some (after [Add (Str ''a''), Tick])
   \<and> invoked (after [Add (Str ''a''), Tick]) \<noteq> invoked (after [Add (Str ''a'')])"
proof -
  let ?q = "after [Add (Str ''a''), Add (Str ''b''), Clear]"
  have o: "\<not> isClosed init" and i: "invoked init = []" "ticks init = 0"
    by (simp_all add: init_def)
  have t: "0 < ticks ?q" and e: "items ?q = []" and n: "ticks ?q = 2" by code_simp+
  have s: "step Tick (after [Add (Str ''a'')]) = Some (after [Add (Str ''a''), Tick])"
    and d: "invoked (after [Add (Str ''a''), Tick]) \<noteq> invoked (after [Add (Str ''a'')])"
    by code_simp+
  from add_defers_dispatch [of "Str ''a''" init] o i
  have "invoked (snd (queue_add (Str ''a'') init)) = []
    \<and> ticks (snd (queue_add (Str ''a'') init)) = 1" by simp
  moreover from add_defers_dispatch [of _ ?q] t e n
  have "step Tick ?q = Some (?q\<lparr> ticks := 1 \<rparr>)" by simp
  ultimately show ?thesis using o t e s d by blast
qed

subsection \<open>C9: closing twice\<close>

text \<open>
  Claim C9. Every \<^verbatim>\<open>close()\<close> made while the running count is 0 and the pending buffer
  is empty calls the completion callback; nothing latches the first call. Two calls of
  \<^verbatim>\<open>close()\<close> in a row on such a queue call the callback twice.
\<close>

theorem close_twice_calls_back_twice:
  assumes "running q = 0" "items q = []"
  shows "called (snd (queue_close q)) = called q @ [(callback q, [])]
     \<and> called (snd (queue_close (snd (queue_close q))))
         = called q @ [(callback q, []), (callback q, [])]
     \<and> run [Close, Close] q
         = Some (q\<lparr> isClosed := True,
                     called := called q @ [(callback q, []), (callback q, [])] \<rparr>)"
  using assms by (simp add: queue_close_def Let_def)

theorem close_twice_calls_back_twice_witness:
  "running init = 0 \<and> items init = []
   \<and> called (snd (queue_close (snd (queue_close init)))) = [(Noop, []), (Noop, [])]
   \<and> called (after [Close, Close]) = [(Noop, []), (Noop, [])]"
proof -
  have r: "running init = 0" and i: "items init = []" and c: "called init = []"
    and b: "callback init = Noop" by (simp_all add: init_def)
  from close_twice_calls_back_twice [OF r i] c b r i show ?thesis
    by (simp add: after_def)
qed

subsection \<open>C10: a limit that is not positive\<close>

text \<open>
  Claim C10. \<^verbatim>\<open>concurrency(n)\<close> stores every value \<open>n\<close> of type number, zero, negative
  and fractional ones included. Whenever the limit of a queue is \<^verbatim>\<open><= 0\<close>, a dispatch
  attempt does nothing; and for as long as the limit is not set to anything else than a
  number \<^verbatim>\<open><= 0\<close>, the worker is not called again, whatever is added, and a queue with
  pending items does not drain: unless \<^verbatim>\<open>clear()\<close> is called, the callback is never
  called with no error.
\<close>

theorem nonpositive_concurrency_stalls:
  "queue_concurrency [Number n] q0 = (Queue, q0\<lparr> concurrency := n \<rparr>) \<and>
   (run es init = Some q \<and> nonpositive (concurrency q) \<and> list_all keeps_nonpositive es'
      \<and> run es' q = Some q' \<longrightarrow>
      work q = q \<and> invoked q' = invoked q \<and>
      (items q \<noteq> [] \<and> Clear \<notin> set es' \<longrightarrow> drains q' = drains q))"
proof -
  have "queue_concurrency [Number n] q0 = (Queue, q0\<lparr> concurrency := n \<rparr>)" by simp
  moreover
  { assume r: "run es init = Some q" and n: "nonpositive (concurrency q)"
      and k: "list_all keeps_nonpositive es'" and r': "run es' q = Some q'"
    from r have a: "accounted q" using accounted_init by (rule accounted_run)
    then have "0 \<le> running q" by (rule accounted_nonneg)
    with n have "work q = q" by (simp add: work_shut)
    moreover from a n k r' have "invoked q' = invoked q" by (rule run_shut)
    moreover
    { assume "items q \<noteq> []" and c: "Clear \<notin> set es'"
      then have "stuck q" by (simp add: stuck_def)
      with a n k have "drains q' = drains q" using c r' by (rule run_stuck)
    }
    ultimately have "work q = q \<and> invoked q' = invoked q \<and>
      (items q \<noteq> [] \<and> Clear \<notin> set es' \<longrightarrow> drains q' = drains q)" by blast
  }
  ultimately show ?thesis by blast
qed

theorem nonpositive_concurrency_stalls_witness:
  "concurrency (snd (queue_concurrency [Number (Finite (- 1 / 2))] init)) = Finite (- 1 / 2)
   \<and> run [Worker [Function (UserFn 1)], Concurrency [Number (Finite 0)], Add (Str ''a'')] init
      = Some (after [Worker [Function (UserFn 1)], Concurrency [Number (Finite 0)],
                     Add (Str ''a'')])
   \<and> nonpositive (concurrency (after [Worker [Function (UserFn 1)],
                                      Concurrency [Number (Finite 0)], Add (Str ''a'')]))
   \<and> list_all keeps_nonpositive [Tick, Add (Str ''b''), Concurrency [Number (Finite (- 3))],
                                 Tick, Close]
   \<and> run [Tick, Add (Str ''b''), Concurrency [Number (Finite (- 3))], Tick, Close]
         (after [Worker [Function (UserFn 1)], Concurrency [Number (Finite 0)], Add (Str ''a'')])
      = Some (after [Worker [Function (UserFn 1)], Concurrency [Number (Finite 0)],
                     Add (Str ''a''), Tick, Add (Str ''b''),
                     Concurrency [Number (Finite (- 3))], Tick, Close])
   \<and> items (after [Worker [Function (UserFn 1)], Concurrency [Number (Finite 0)],
                   Add (Str ''a'')]) \<noteq> []
   \<and> Clear \<notin> set [Tick, Add (Str ''b''), Concurrency [Number (Finite (- 3))], Tick, Close]
   \<and> invoked (after [Worker [Function (UserFn 1)], Concurrency [Number (Finite 0)],
                     Add (Str ''a''), Tick, Add (Str ''b''),
                     Concurrency [Number (Finite (- 3))], Tick, Close]) = []
   \<and> drains (after [Worker [Function (UserFn 1)], Concurrency [Number (Finite 0)],
                    Add (Str ''a''), Tick, Add (Str ''b''),
                    Concurrency [Number (Finite (- 3))], Tick, Close]) = []"
proof -
  let ?es = "[Worker [Function (UserFn 1)], Concurrency [Number (Finite 0)], Add (Str ''a'')]"
  let ?es' = "[Tick, Add (Str ''b''), Concurrency [Number (Finite (- 3))], Tick, Close]"
  have 1: "run ?es init = Some (after ?es)" by code_simp
  have 2: "nonpositive (concurrency (after ?es))" by code_simp
  have 3: "list_all keeps_nonpositive ?es'" by code_simp
  have 4: "run ?es' (after ?es) = Some (after (?es @ ?es'))" by code_simp
  have 5: "items (after ?es) \<noteq> []" by code_simp
  have 6: "Clear \<notin> set ?es'" by simp
  have 7: "invoked (after ?es) = []" and 8: "drains (after ?es) = []" by code_simp+
  from nonpositive_concurrency_stalls
         [of "Finite (- 1 / 2)" init ?es "after ?es" ?es' "after (?es @ ?es')"]
       1 2 3 4 5 6 7 8
  show ?thesis by simp
qed

end
